theory Spec2Isabelle
  imports Main
begin

section \<open>Errors\<close>

text \<open>
  Go errors as values. \<open>EOF\<close> and \<open>ErrUnexpectedEOF\<close> are the sentinels of package
  io; \<open>New msg\<close> is \<open>errors.New(msg)\<close> and \<open>Wrap e msg\<close> is
  \<open>errors.Wrap(e, msg)\<close>. The \<open>ErrInvalid...\<close> values and \<open>ErrNoContent\<close> are the
  sentinels of the repository's headers package that the handlers name; their
  declarations are not among the sources.
\<close>

datatype error =
    EOF
  | ErrUnexpectedEOF
  | ErrInvalidTopic
  | ErrInvalidMessageID
  | ErrInvalidMessageLimit
  | ErrInvalidBodyMissing
  | ErrInvalidBodyJSON
  | ErrNoContent
  | New string
  | Wrap error string

text \<open>\<open>errors.Is(err, target)\<close>: \<open>err\<close> or an error it wraps is \<open>target\<close>.\<close>

fun errors_Is :: "error \<Rightarrow> error \<Rightarrow> bool" where
  "errors_Is (Wrap e msg) target = (Wrap e msg = target \<or> errors_Is e target)"
| "errors_Is e target = (e = target)"

type_synonym bytes = "char list"

section \<open>multiwriter.go: MultiWriteAtCloser\<close>

text \<open>
  \<open>WriteAtCloser\<close> is an interface (\<open>io.Closer\<close> and \<open>io.WriterAt\<close>). A writer is a
  state of type \<open>'w\<close>; the interface's two methods take the state and return their
  results with the new state. \<open>WriteAt\<close> returns the count \<open>n\<close> and the error.
\<close>

record 'w WriteAtCloser =
  wClose :: "'w \<Rightarrow> error option \<times> 'w"
  wWriteAt :: "'w \<Rightarrow> bytes \<Rightarrow> int \<Rightarrow> (int \<times> error option) \<times> 'w"

text \<open>
  \<open>MultiWriteAtCloser\<close> is a slice of writers: the list of their states. The writers
  are distinct objects: a call on one leaves the others as they are.
\<close>

text \<open>
  \<open>Close\<close>: the loop keeps the last non-nil error in \<open>err\<close> and goes on to the next
  writer. \<open>Close_from\<close> is the loop with the current value of \<open>err\<close>.
\<close>

fun Close_from :: "'w WriteAtCloser \<Rightarrow> error option \<Rightarrow> 'w list \<Rightarrow> error option \<times> 'w list" where
  "Close_from I err [] = (err, [])"
| "Close_from I err (w # ws) =
     (case wClose I w of (e, w') \<Rightarrow>
        (case Close_from I (if e \<noteq> None then e else err) ws of
           (r, ws') \<Rightarrow> (r, w' # ws')))"

definition Close :: "'w WriteAtCloser \<Rightarrow> 'w list \<Rightarrow> error option \<times> 'w list" where
  "Close I mw = Close_from I None mw"

text \<open>
  \<open>WriteAt\<close>: the loop returns at the first writer whose error is neither nil nor
  \<open>io.EOF\<close>, or whose count is not \<open>len(p)\<close>; the writers after it are not called.
\<close>

fun WriteAt :: "'w WriteAtCloser \<Rightarrow> 'w list \<Rightarrow> bytes \<Rightarrow> int \<Rightarrow> error option \<times> 'w list" where
  "WriteAt I [] p off = (None, [])"
| "WriteAt I (w # ws) p off =
     (case wWriteAt I w p off of ((n, err), w') \<Rightarrow>
        (case err of
           Some e \<Rightarrow>
             if \<not> errors_Is e EOF then (Some e, w' # ws)
             else if n \<noteq> int (length p) then (Some (New ''incomplete write''), w' # ws)
             else (case WriteAt I ws p off of (r, ws') \<Rightarrow> (r, w' # ws'))
         | None \<Rightarrow>
             if n \<noteq> int (length p) then (Some (New ''incomplete write''), w' # ws)
             else (case WriteAt I ws p off of (r, ws') \<Rightarrow> (r, w' # ws'))))"

text \<open>
  \<open>io.Reader\<close>: \<open>Read(p)\<close> with \<open>len(p) = k\<close> is \<open>rd r k\<close>, which returns the bytes
  stored into \<open>p\<close>, the error, and the reader's new state. A reader stores at most
  \<open>len(p)\<close> bytes, so the loop below keeps at most \<open>k\<close> of them.
\<close>

type_synonym 'r Reader = "'r \<Rightarrow> nat \<Rightarrow> (bytes \<times> error option) \<times> 'r"

text \<open>
  The loop of \<open>io.ReadAtLeast(r, buf, min)\<close> for \<open>len(buf) = min\<close>, as \<open>CopyNAt\<close>
  calls it: \<open>for n < min && err == nil { nn, err = r.Read(buf[n:]); n += nn }\<close>.
  \<open>acc\<close> is \<open>buf[:n]\<close>. A reader that keeps returning no bytes and no error stalls
  the loop for ever: the result is then \<open>None\<close>.
\<close>

partial_function (option) ReadAtLeast_loop ::
  "'r Reader \<Rightarrow> nat \<Rightarrow> 'r \<Rightarrow> bytes \<Rightarrow> error option \<Rightarrow> (bytes \<times> error option \<times> 'r) option" where
  "ReadAtLeast_loop rd k r acc err =
     (if length acc < k \<and> err = None
      then ReadAtLeast_loop rd k (snd (rd r (k - length acc)))
             (acc @ take (k - length acc) (fst (fst (rd r (k - length acc)))))
             (snd (fst (rd r (k - length acc))))
      else Some (acc, err, r))"

declare ReadAtLeast_loop.simps [code]

text \<open>
  After the loop: \<open>if n >= min { err = nil } else if n > 0 && err == EOF
  { err = ErrUnexpectedEOF }\<close>. The comparison with \<open>EOF\<close> is \<open>==\<close>, not
  \<open>errors.Is\<close>.
\<close>

definition ReadAtLeast :: "'r Reader \<Rightarrow> 'r \<Rightarrow> nat \<Rightarrow> (bytes \<times> error option \<times> 'r) option" where
  "ReadAtLeast rd r k =
     (case ReadAtLeast_loop rd k r [] None of
        None \<Rightarrow> None
      | Some (acc, err, r') \<Rightarrow>
          if length acc \<ge> k then Some (acc, None, r')
          else if length acc > 0 \<and> err = Some EOF then Some (acc, Some ErrUnexpectedEOF, r')
          else Some (acc, err, r'))"

text \<open>
  \<open>CopyNAt\<close>. The buffer is \<open>make([]byte, N)\<close> or \<open>buf[:N]\<close> of the pooled buffer;
  for a negative \<open>N\<close> the slice expression \<open>buf[:N]\<close> panics. What the call leaves:
  a panic or the returned error, the writers and the reader.
\<close>

datatype call_result = Panicked | Returned "error option"

definition CopyNAt ::
  "'w WriteAtCloser \<Rightarrow> 'r Reader \<Rightarrow> 'w list \<Rightarrow> 'r \<Rightarrow> int \<Rightarrow> int \<Rightarrow> (call_result \<times> 'w list \<times> 'r) option" where
  "CopyNAt I rd mw r N off =
     (if N < 0 then Some (Panicked, mw, r)
      else case ReadAtLeast rd r (nat N) of
        None \<Rightarrow> None
      | Some (buf, Some e, r') \<Rightarrow> Some (Returned (Some (Wrap e ''unable to read input'')), mw, r')
      | Some (buf, None, r') \<Rightarrow>
          (case WriteAt I mw buf off of
             (Some e, mw') \<Rightarrow> Some (Returned (Some (Wrap e ''unable to copy to log file'')), mw', r')
           | (None, mw') \<Rightarrow> Some (Returned None, mw', r')))"

text \<open>
  A writer completes the write of \<open>p\<close> at \<open>off\<close> when it returns \<open>n = len(p)\<close> and
  an error that is nil or \<open>io.EOF\<close>.
\<close>

definition full_write :: "'w WriteAtCloser \<Rightarrow> bytes \<Rightarrow> int \<Rightarrow> 'w \<Rightarrow> bool" where
  "full_write I p off w =
     (case wWriteAt I w p off of
        ((n, err), w') \<Rightarrow> n = int (length p) \<and> (case err of None \<Rightarrow> True | Some e \<Rightarrow> errors_Is e EOF))"

text \<open>The errors of the single closes, in the order of the writers.\<close>

definition close_errors :: "'w WriteAtCloser \<Rightarrow> 'w list \<Rightarrow> error list" where
  "close_errors I mw = concat (map (\<lambda>w. case fst (wClose I w) of None \<Rightarrow> [] | Some e \<Rightarrow> [e]) mw)"

section \<open>Library functions the handlers call\<close>

text \<open>
  \<open>url.Values\<close> and \<open>http.Header\<close> are \<open>map[string][]string\<close>; a key that is absent
  has the nil slice. \<open>Get\<close> is the first value of a key, or the empty string. The
  header keys the handlers use are in canonical form as written.
\<close>

type_synonym Values = "string \<Rightarrow> string list"

definition Get :: "Values \<Rightarrow> string \<Rightarrow> string" where
  "Get h key = (case h key of [] \<Rightarrow> [] | v # vs \<Rightarrow> v)"

text \<open>\<open>strings.TrimPrefix\<close> and \<open>strings.Join\<close>.\<close>

definition TrimPrefix :: "string \<Rightarrow> string \<Rightarrow> string" where
  "TrimPrefix s pre = (if take (length pre) s = pre then drop (length pre) s else s)"

fun Join :: "string list \<Rightarrow> string \<Rightarrow> string" where
  "Join [] sep = []"
| "Join [x] sep = x"
| "Join (x # y # ys) sep = x @ sep @ Join (y # ys) sep"

text \<open>
  \<open>strings.ToLower\<close>: a string of ASCII bytes has its letters \<open>A\<close> to \<open>Z\<close> mapped to
  \<open>a\<close> to \<open>z\<close>; any other string goes through \<open>strings.Map(unicode.ToLower, s)\<close>,
  which is the parameter \<open>U\<close>.
\<close>

definition is_ascii :: "char \<Rightarrow> bool" where
  "is_ascii c = ((of_char c :: nat) < 128)"

definition is_upper :: "char \<Rightarrow> bool" where
  "is_upper c = (65 \<le> (of_char c :: nat) \<and> (of_char c :: nat) \<le> 90)"

definition to_lower :: "char \<Rightarrow> char" where
  "to_lower c = (if is_upper c then char_of ((of_char c :: nat) + 32) else c)"

definition ToLower :: "(string \<Rightarrow> string) \<Rightarrow> string \<Rightarrow> string" where
  "ToLower U s = (if list_all is_ascii s then map to_lower s else U s)"

text \<open>
  \<open>strconv.ParseInt(s, 10, 64)\<close>: an optional sign, then one or more decimal digits;
  a value outside the 64-bit range is an error too. \<open>None\<close> is a non-nil error.
\<close>

definition is_digit :: "char \<Rightarrow> bool" where
  "is_digit c = (48 \<le> (of_char c :: nat) \<and> (of_char c :: nat) \<le> 57)"

fun digits_value :: "nat \<Rightarrow> string \<Rightarrow> nat" where
  "digits_value acc [] = acc"
| "digits_value acc (c # cs) = digits_value (acc * 10 + ((of_char c :: nat) - 48)) cs"

definition ParseUint :: "string \<Rightarrow> nat option" where
  "ParseUint s = (if s = [] \<or> \<not> list_all is_digit s then None else Some (digits_value 0 s))"

definition ParseInt :: "string \<Rightarrow> int option" where
  "ParseInt s =
     (case s of
        [] \<Rightarrow> None
      | c # cs \<Rightarrow>
          (case ParseUint (if c = CHR ''+'' \<or> c = CHR ''-'' then cs else s) of
             None \<Rightarrow> None
           | Some un \<Rightarrow>
               if c \<noteq> CHR ''-'' \<and> un \<ge> 2 ^ 63 then None
               else if c = CHR ''-'' \<and> un > 2 ^ 63 then None
               else Some (if c = CHR ''-'' then - int un else int un)))"

text \<open>\<open>strconv.FormatInt(i, 10)\<close>, as \<open>encoding/json\<close> writes an \<open>int64\<close>.\<close>

fun digits :: "nat \<Rightarrow> string" where
  "digits n = (if n < 10 then [char_of (48 + n)] else digits (n div 10) @ [char_of (48 + n mod 10)])"

declare digits.simps [simp del]

definition FormatInt :: "int \<Rightarrow> string" where
  "FormatInt i = (if i < 0 then CHR ''-'' # digits (nat (- i)) else digits (nat i))"

text \<open>
  \<open>filepath.Clean\<close> (with \<open>/\<close> as the separator). The output buffer \<open>out\<close> holds the
  bytes written so far (\<open>out.w\<close> is its length) and \<open>dotdot\<close> is the index up to
  which the buffer may not be cut back. \<open>backtrack\<close> is the inner loop of the \<open>..\<close>
  case, from \<open>out.w - 1\<close> down: \<open>for out.w > dotdot && out[out.w] != '/' { out.w-- }\<close>.
\<close>

fun backtrack :: "string \<Rightarrow> nat \<Rightarrow> nat \<Rightarrow> nat" where
  "backtrack out dotdot 0 = 0"
| "backtrack out dotdot (Suc w) =
     (if Suc w > dotdot \<and> out ! Suc w \<noteq> CHR ''/'' then backtrack out dotdot w else Suc w)"

function Clean_loop :: "bool \<Rightarrow> string \<Rightarrow> string \<Rightarrow> nat \<Rightarrow> string" where
  "Clean_loop rooted [] out dotdot = out"
| "Clean_loop rooted (c # rest) out dotdot =
     (if c = CHR ''/'' then Clean_loop rooted rest out dotdot
      else if c = CHR ''.'' \<and> (rest = [] \<or> hd rest = CHR ''/'') then
        Clean_loop rooted rest out dotdot
      else if c = CHR ''.'' \<and> hd rest = CHR ''.'' \<and> (tl rest = [] \<or> hd (tl rest) = CHR ''/'') then
        (if length out > dotdot then
           Clean_loop rooted (tl rest) (take (backtrack out dotdot (length out - 1)) out) dotdot
         else if \<not> rooted then
           Clean_loop rooted (tl rest)
             ((if out \<noteq> [] then out @ ''/'' else out) @ ''..'')
             (length ((if out \<noteq> [] then out @ ''/'' else out) @ ''..''))
         else Clean_loop rooted (tl rest) out dotdot)
      else
        Clean_loop rooted (dropWhile (\<lambda>x. x \<noteq> CHR ''/'') rest)
          ((if rooted \<and> length out \<noteq> 1 \<or> \<not> rooted \<and> length out \<noteq> 0 then out @ ''/'' else out)
             @ c # takeWhile (\<lambda>x. x \<noteq> CHR ''/'') rest)
          dotdot)"
  by pat_completeness auto
termination
  by (relation "measure (\<lambda>(rooted, path, out, dotdot). length path)")
     (auto simp: le_imp_less_Suc length_dropWhile_le)

declare Clean_loop.simps [simp del]

definition Clean :: "string \<Rightarrow> string" where
  "Clean path =
     (case path of
        [] \<Rightarrow> ''.''
      | c # rest \<Rightarrow>
          (case (if c = CHR ''/'' then Clean_loop True rest ''/'' 1 else Clean_loop False path [] 0) of
             [] \<Rightarrow> ''.''
           | out \<Rightarrow> out))"

text \<open>
  The form of a cleaned path, for the proofs about \<open>Clean\<close>. A path element is
  real when it is not empty, has no separator and is neither \<open>.\<close> nor \<open>..\<close>.
  The output buffer always holds a stack of elements, \<open>k\<close> times \<open>..\<close> and then
  real elements, joined by separators after the root if there is one; \<open>dotdot\<close>
  marks the end of the \<open>..\<close> elements.
\<close>

definition real_elem :: "string \<Rightarrow> bool" where
  "real_elem c = (c \<noteq> [] \<and> CHR ''/'' \<notin> set c \<and> c \<noteq> ''.'' \<and> c \<noteq> ''..'')"

definition render :: "bool \<Rightarrow> string list \<Rightarrow> string" where
  "render rooted st = (if rooted then ''/'' else []) @ Join st ''/''"

text \<open>A byte that is not the separator.\<close>

abbreviation "nsl \<equiv> (\<lambda>x. x \<noteq> CHR ''/'')"

definition stack :: "nat \<Rightarrow> string list \<Rightarrow> string list" where
  "stack k rs = replicate k ''..'' @ rs"

definition mark :: "bool \<Rightarrow> nat \<Rightarrow> nat" where
  "mark rooted k = (if rooted then 1 else length (Join (replicate k ''..'') ''/''))"

definition clean_form :: "bool \<Rightarrow> nat \<Rightarrow> string list \<Rightarrow> bool" where
  "clean_form rooted k rs = ((rooted \<longrightarrow> k = 0) \<and> list_all real_elem rs)"

text \<open>What follows the first element of a joined path.\<close>

definition tail_of :: "string list \<Rightarrow> string" where
  "tail_of cs = (if cs = [] then [] else CHR ''/'' # Join cs ''/'')"

text \<open>
  \<open>strings.TrimSpace\<close> and \<open>http.CanonicalHeaderKey\<close> on strings of ASCII bytes: the
  white space is tab, line feed, vertical tab, form feed, carriage return and space; a
  key with a byte that is not a token byte is returned as it is, and any other key has
  its first letter and each letter after a hyphen in upper case, the rest in lower
  case. The handlers take the two functions as parameters; these are their instances
  in the examples.
\<close>

definition is_space :: "char \<Rightarrow> bool" where
  "is_space c = ((9 \<le> (of_char c :: nat) \<and> (of_char c :: nat) \<le> 13) \<or> c = CHR '' '')"

definition ascii_TrimSpace :: "string \<Rightarrow> string" where
  "ascii_TrimSpace s = rev (dropWhile is_space (rev (dropWhile is_space s)))"

definition is_lower :: "char \<Rightarrow> bool" where
  "is_lower c = (97 \<le> (of_char c :: nat) \<and> (of_char c :: nat) \<le> 122)"

definition validHeaderFieldByte :: "char \<Rightarrow> bool" where
  "validHeaderFieldByte c = (is_lower c \<or> is_upper c \<or> is_digit c \<or> c \<in> set ''!#$%&'' \<or>
     c = CHR 0x27 \<or> c \<in> set ''*+-.^_`|~'')"

fun canonical_from :: "bool \<Rightarrow> string \<Rightarrow> string" where
  "canonical_from upper [] = []"
| "canonical_from upper (c # cs) =
     (if upper \<and> is_lower c then char_of ((of_char c :: nat) - 32) # canonical_from False cs
      else if \<not> upper \<and> is_upper c then char_of ((of_char c :: nat) + 32) # canonical_from False cs
      else c # canonical_from (c = CHR ''-'') cs)"

definition ascii_CanonicalHeaderKey :: "string \<Rightarrow> string" where
  "ascii_CanonicalHeaderKey s = (if list_all validHeaderFieldByte s then canonical_from True s else s)"

section \<open>Requests and responses\<close>

text \<open>
  The part of \<open>*http.Request\<close> the handlers read: \<open>r.URL.Path\<close>, \<open>r.URL.Query()\<close>,
  \<open>r.Header\<close> and \<open>r.Body\<close> (\<open>None\<close> is nil).
\<close>

record 'b Request =
  Path :: string
  Query :: Values
  Header :: Values
  Body :: "'b option"

text \<open>
  \<open>http.ResponseWriter\<close>: the header map \<open>w.Header()\<close>, the status code once it is
  written, and the body written so far. \<open>WriteHeader\<close> sets the status code if none is
  set yet (a second call is ignored); \<open>Write\<close> writes the body, after an implicit
  \<open>WriteHeader(200)\<close> if no status has been written.
\<close>

record ResponseWriter =
  header :: Values
  status :: "nat option"
  body :: bytes

definition NewRecorder :: ResponseWriter where
  "NewRecorder = \<lparr>header = (\<lambda>k. []), status = None, body = []\<rparr>"

definition WriteHeader :: "ResponseWriter \<Rightarrow> nat \<Rightarrow> ResponseWriter" where
  "WriteHeader w code = (if status w = None then w\<lparr>status := Some code\<rparr> else w)"

definition Write :: "ResponseWriter \<Rightarrow> bytes \<Rightarrow> ResponseWriter" where
  "Write w bs = (WriteHeader w 200)\<lparr>body := body (WriteHeader w 200) @ bs\<rparr>"

definition SetHeader :: "ResponseWriter \<Rightarrow> string \<Rightarrow> string list \<Rightarrow> ResponseWriter" where
  "SetHeader w key vs = w\<lparr>header := (header w)(key := vs)\<rparr>"

text \<open>
  Modelled from the spec: the constant \<open>headers.ContentType\<close>, the name of the
  \<open>Content-Type\<close> header.
\<close>

definition ContentType :: string where
  "ContentType = ''Content-Type''"

text \<open>
  Modelled from the spec: \<open>headers.SetError\<close>, of the repository's headers package,
  which is not among the sources. The spec: errors are returned as a status plus an
  \<open>X-Error\<close> header carrying the error's token; an empty consume is 204 with the
  no-content token. \<open>tok\<close> gives the token of an error and \<open>st\<close> the status code of
  the other errors.
\<close>

definition SetError ::
  "(error \<Rightarrow> string) \<Rightarrow> (error \<Rightarrow> nat) \<Rightarrow> ResponseWriter \<Rightarrow> error \<Rightarrow> ResponseWriter" where
  "SetError tok st w err =
     WriteHeader (SetHeader w ''X-Error'' [tok err]) (if err = ErrNoContent then 204 else st err)"

section \<open>The queue\<close>

text \<open>
  Modelled from the spec: the types \<open>headers.ModifyRequest\<close> and
  \<open>headers.TopicInfo\<close>, whose declarations are not among the sources, with the JSON
  fields of the spec and of the API description: \<open>truncate\<close> and \<open>before\<close>,
  \<open>minOffset\<close> and \<open>maxOffset\<close>. The offsets are \<open>int64\<close>; the handlers do no
  arithmetic on them. \<open>before\<close> is kept as the text of the request.
\<close>

record ModifyRequest =
  Truncate :: int
  Before :: string

record TopicInfo =
  MinOffset :: int
  MaxOffset :: int

text \<open>
  Modelled from the spec: the \<open>Queue\<close> interface, whose declaration is not among
  the sources, with the three methods of these handlers as they call them. A queue is
  a state of type \<open>'q\<close>; each method returns its results and the new state. A
  \<open>[]string\<close> result is \<open>None\<close> when it is the nil slice. \<open>Consume\<close> is given the
  response writer and writes the messages to it.
\<close>

record 'q Queue =
  ListTopics :: "'q \<Rightarrow> string \<Rightarrow> string \<Rightarrow> string \<Rightarrow> (string list option \<times> error option) \<times> 'q"
  ModifyTopic :: "'q \<Rightarrow> string \<Rightarrow> ModifyRequest \<Rightarrow> (TopicInfo \<times> error option) \<times> 'q"
  Consume :: "'q \<Rightarrow> string \<Rightarrow> int \<Rightarrow> int \<Rightarrow> ResponseWriter \<Rightarrow> ((int \<times> error option) \<times> ResponseWriter) \<times> 'q"

text \<open>
  The server: its queue, the default consume limit, and the batch sizes its metrics
  have been given by \<open>ConsumeMsgs\<close>.
\<close>

record 'q Server =
  q :: 'q
  defaultConsumeLimit :: int
  consumed :: "int list"

section \<open>The handlers\<close>

text \<open>\<open>getTopic\<close>.\<close>

definition getTopic :: "(string \<Rightarrow> string) \<Rightarrow> 'b Request \<Rightarrow> error + string" where
  "getTopic U r =
     (let topic = Clean (ToLower U (TrimPrefix (Path r) ''/topics/''))
      in if topic = [] \<or> topic = ''.'' then Inl ErrInvalidTopic else Inr topic)"

text \<open>
  \<open>HandleOptions\<close>. \<open>allowedHeaders\<close> is its loop over the request's
  \<open>Access-Control-Request-Headers\<close> values; \<open>canon\<close> is \<open>http.CanonicalHeaderKey\<close>
  and \<open>trim\<close> is \<open>strings.TrimSpace\<close>.
\<close>

fun allowedHeaders :: "(string \<Rightarrow> string) \<Rightarrow> (string \<Rightarrow> string) \<Rightarrow> string list \<Rightarrow> string list" where
  "allowedHeaders canon trim [] = []"
| "allowedHeaders canon trim (v # vs) =
     (if canon (trim v) = [] then allowedHeaders canon trim vs
      else canon (trim v) # allowedHeaders canon trim vs)"

definition HandleOptions ::
  "(string \<Rightarrow> string) \<Rightarrow> (string \<Rightarrow> string) \<Rightarrow> 'b Request \<Rightarrow> ResponseWriter \<Rightarrow> ResponseWriter" where
  "HandleOptions canon trim r w =
     (let allowed = allowedHeaders canon trim (Header r ''Access-Control-Request-Headers'');
          w1 = (if length allowed > 0 then SetHeader w ''Access-Control-Allow-Headers'' allowed else w);
          method = Get (Header r) ''Access-Control-Request-Method'';
          w2 = SetHeader w1 ''Access-Control-Allow-Methods'' [method]
      in WriteHeader w2 200)"

text \<open>
  \<open>json.Marshal(map[string][]string{"topics": topics})\<close>: a nil slice is written
  \<open>null\<close>, any other slice as an array of strings. \<open>quote\<close> is the JSON encoding of
  a string.
\<close>

definition Marshal_topics :: "(string \<Rightarrow> string) \<Rightarrow> string list option \<Rightarrow> string" where
  \<open>Marshal_topics quote topics =
     ''{"topics":'' @
     (case topics of None \<Rightarrow> ''null'' | Some ts \<Rightarrow> ''['' @ Join (map quote ts) '','' @ '']'') @
     ''}''\<close>

text \<open>\<open>HandleGetAllTopics\<close>. \<open>strings.Join\<close> of a nil slice is the empty string.\<close>

definition HandleGetAllTopics ::
  "'q Queue \<Rightarrow> (string \<Rightarrow> string) \<Rightarrow> (error \<Rightarrow> string) \<Rightarrow> (error \<Rightarrow> nat) \<Rightarrow>
     'q Server \<Rightarrow> 'b Request \<Rightarrow> ResponseWriter \<Rightarrow> ResponseWriter \<times> 'q Server" where
  "HandleGetAllTopics Q quote tok st s r w =
     (case ListTopics Q (q s) (Get (Query r) ''prefix'') (Get (Query r) ''suffix'') (Get (Query r) ''regex'') of
        ((topics, err), q') \<Rightarrow>
          (case err of
             Some e \<Rightarrow> (SetError tok st w e, s\<lparr>q := q'\<rparr>)
           | None \<Rightarrow>
               (let topics = (if topics = None then Some [] else topics)
                in if Get (Header r) ''Accept'' = ''application/json''
                   then (Write (SetHeader w ContentType [''application/json''])
                               (Marshal_topics quote topics),
                         s\<lparr>q := q'\<rparr>)
                   else (Write (SetHeader w ContentType [''text/csv''])
                               (Join (case topics of None \<Rightarrow> [] | Some ts \<Rightarrow> ts) '',''),
                         s\<lparr>q := q'\<rparr>))))"

text \<open>
  \<open>json.NewEncoder(w).Encode(&info)\<close>: the object with the two offsets, in the
  order of the spec, and a newline.
\<close>

definition Encode_TopicInfo :: "TopicInfo \<Rightarrow> string" where
  \<open>Encode_TopicInfo info =
     ''{"minOffset":'' @ FormatInt (MinOffset info) @ '',"maxOffset":'' @ FormatInt (MaxOffset info) @
     ''}'' @ [CHR 0x0A]\<close>

text \<open>
  \<open>HandleModifyTopic\<close>. \<open>decode\<close> is \<open>json.NewDecoder(r.Body).Decode(&request)\<close>:
  \<open>None\<close> when it returns an error.
\<close>

definition HandleModifyTopic ::
  "'q Queue \<Rightarrow> (string \<Rightarrow> string) \<Rightarrow> ('b \<Rightarrow> ModifyRequest option) \<Rightarrow> (error \<Rightarrow> string) \<Rightarrow> (error \<Rightarrow> nat) \<Rightarrow>
     'q Server \<Rightarrow> 'b Request \<Rightarrow> ResponseWriter \<Rightarrow> ResponseWriter \<times> 'q Server" where
  "HandleModifyTopic Q U decode tok st s r w =
     (case Body r of
        None \<Rightarrow> (SetError tok st w ErrInvalidBodyMissing, s)
      | Some b \<Rightarrow>
          (case getTopic U r of
             Inl e \<Rightarrow> (SetError tok st w e, s)
           | Inr topic \<Rightarrow>
               (case decode b of
                  None \<Rightarrow> (SetError tok st w ErrInvalidBodyJSON, s)
                | Some request \<Rightarrow>
                    if Truncate request = 0 then (WriteHeader w 204, s)
                    else
                      (case ModifyTopic Q (q s) topic request of
                         ((info, err), q') \<Rightarrow>
                           (case err of
                              Some e \<Rightarrow> (SetError tok st w e, s\<lparr>q := q'\<rparr>)
                            | None \<Rightarrow>
                                (Write (WriteHeader (SetHeader w ContentType [''application/json'']) 200)
                                       (Encode_TopicInfo info),
                                 s\<lparr>q := q'\<rparr>))))))"

text \<open>
  \<open>HandleConsume\<close>. \<open>consume_args\<close> is its first part, which reads the topic, the
  \<open>id\<close> and the \<open>limit\<close> of the request; \<open>consume_reply\<close> is the rest, from the call
  of the queue's \<open>Consume\<close>.
\<close>

definition consume_args ::
  "(string \<Rightarrow> string) \<Rightarrow> 'q Server \<Rightarrow> 'b Request \<Rightarrow> error + (string \<times> int \<times> int)" where
  "consume_args U s r =
     (case getTopic U r of
        Inl e \<Rightarrow> Inl e
      | Inr topic \<Rightarrow>
          (case ParseInt (Get (Query r) ''id'') of
             None \<Rightarrow> Inl ErrInvalidMessageID
           | Some msg_id \<Rightarrow>
               (let queryLimit = Get (Query r) ''limit''
                in if queryLimit \<noteq> [] \<and> hd queryLimit \<noteq> CHR ''-''
                   then (case ParseInt queryLimit of
                           None \<Rightarrow> Inl ErrInvalidMessageLimit
                         | Some limit \<Rightarrow>
                             Inr (topic, msg_id, if limit \<le> 0 then defaultConsumeLimit s else limit))
                   else Inr (topic, msg_id, defaultConsumeLimit s))))"

definition consume_reply ::
  "'q Queue \<Rightarrow> (error \<Rightarrow> string) \<Rightarrow> (error \<Rightarrow> nat) \<Rightarrow> 'q Server \<Rightarrow> string \<Rightarrow> int \<Rightarrow> int \<Rightarrow>
     ResponseWriter \<Rightarrow> ResponseWriter \<times> 'q Server" where
  "consume_reply Q tok st s topic msg_id limit w =
     (case Consume Q (q s) topic msg_id limit w of
        (((count, err), w'), q') \<Rightarrow>
          (case err of
             Some e \<Rightarrow> (SetError tok st w' e, s\<lparr>q := q'\<rparr>)
           | None \<Rightarrow>
               if count = 0 then (SetError tok st w' ErrNoContent, s\<lparr>q := q'\<rparr>)
               else (w', s\<lparr>q := q', consumed := consumed s @ [count]\<rparr>)))"

definition HandleConsume ::
  "'q Queue \<Rightarrow> (string \<Rightarrow> string) \<Rightarrow> (error \<Rightarrow> string) \<Rightarrow> (error \<Rightarrow> nat) \<Rightarrow>
     'q Server \<Rightarrow> 'b Request \<Rightarrow> ResponseWriter \<Rightarrow> ResponseWriter \<times> 'q Server" where
  "HandleConsume Q U tok st s r w =
     (case consume_args U s r of
        Inl e \<Rightarrow> (SetError tok st w e, s)
      | Inr (topic, msg_id, limit) \<Rightarrow> consume_reply Q tok st s topic msg_id limit w)"

section \<open>Test doubles\<close>

text \<open>
  A mock queue, as the generated mock of the server's tests: it records the calls it
  receives and answers each with a fixed reply. Its \<open>Consume\<close> leaves the response
  writer as it is.
\<close>

datatype queue_call =
    CallListTopics string string string
  | CallModifyTopic string ModifyRequest
  | CallConsume string int int

record mock_queue =
  calls :: "queue_call list"
  topics_reply :: "string list option \<times> error option"
  modify_reply :: "TopicInfo \<times> error option"
  consume_answer :: "int \<times> error option"

definition mockQ :: "mock_queue Queue" where
  "mockQ =
     \<lparr>ListTopics = (\<lambda>m pre suf re. (topics_reply m, m\<lparr>calls := calls m @ [CallListTopics pre suf re]\<rparr>)),
      ModifyTopic = (\<lambda>m topic req. (modify_reply m, m\<lparr>calls := calls m @ [CallModifyTopic topic req]\<rparr>)),
      Consume = (\<lambda>m topic msg_id limit w.
                   ((consume_answer m, w), m\<lparr>calls := calls m @ [CallConsume topic msg_id limit]\<rparr>))\<rparr>"

text \<open>
  A request with no values, the tokens of the errors as the spec lists them, a status
  code for each error, and the JSON encoding of a string that needs no escape.
\<close>

definition no_values :: Values where
  "no_values = (\<lambda>k. [])"

fun test_token :: "error \<Rightarrow> string" where
  "test_token ErrInvalidTopic = ''invalid-topic''"
| "test_token ErrInvalidMessageID = ''invalid-message-id''"
| "test_token ErrInvalidMessageLimit = ''invalid-message-limit''"
| "test_token ErrInvalidBodyMissing = ''invalid-body-missing''"
| "test_token ErrInvalidBodyJSON = ''invalid-body-json''"
| "test_token ErrNoContent = ''no-content''"
| "test_token EOF = ''EOF''"
| "test_token ErrUnexpectedEOF = ''unexpected EOF''"
| "test_token (New msg) = msg"
| "test_token (Wrap e msg) = msg @ '': '' @ test_token e"

definition test_status :: "error \<Rightarrow> nat" where
  "test_status e =
     (if e \<in> {ErrInvalidTopic, ErrInvalidMessageID, ErrInvalidMessageLimit,
               ErrInvalidBodyMissing, ErrInvalidBodyJSON} then 400 else 500)"

definition quote_plain :: "string \<Rightarrow> string" where
  "quote_plain s = CHR 0x22 # s @ [CHR 0x22]"

definition new_mock_queue ::
  "string list option \<times> error option \<Rightarrow> TopicInfo \<times> error option \<Rightarrow> int \<times> error option \<Rightarrow> mock_queue" where
  "new_mock_queue lt mt ct = \<lparr>calls = [], topics_reply = lt, modify_reply = mt, consume_answer = ct\<rparr>"

text \<open>The requests, the server and the body decoder of the examples.\<close>

definition topic_request :: "string \<Rightarrow> unit Request" where
  "topic_request p = \<lparr>Path = p, Query = no_values, Header = no_values, Body = None\<rparr>"

definition options_request :: "unit Request" where
  "options_request =
     \<lparr>Path = ''/topics/t1'', Query = no_values,
      Header = no_values(''Access-Control-Request-Headers'' := ['' content-type'', ''  '', ''x-SIZES ''],
                         ''Access-Control-Request-Method'' := [''POST'']),
      Body = None\<rparr>"

definition topics_request :: "string \<Rightarrow> unit Request" where
  "topics_request accept =
     \<lparr>Path = ''/topics'', Query = no_values, Header = no_values(''Accept'' := [accept]), Body = None\<rparr>"

definition consume_request :: "string \<Rightarrow> string \<Rightarrow> unit Request" where
  "consume_request i l =
     \<lparr>Path = ''/topics/t1'', Query = no_values(''id'' := [i], ''limit'' := [l]), Header = no_values,
      Body = None\<rparr>"

definition modify_request :: "ModifyRequest option \<Rightarrow> ModifyRequest option Request" where
  "modify_request b =
     \<lparr>Path = ''/topics/T1/'', Query = no_values, Header = no_values, Body = Some b\<rparr>"

definition test_decode :: "ModifyRequest option \<Rightarrow> ModifyRequest option" where
  "test_decode b = b"

definition test_server :: "mock_queue \<Rightarrow> mock_queue Server" where
  "test_server m = \<lparr>q = m, defaultConsumeLimit = - 1, consumed = []\<rparr>"

text \<open>
  A mock writer, as the generated mocks of the package's tests: it records the calls
  it receives and answers each with a fixed reply.
\<close>

record mock_writer =
  written :: "(bytes \<times> int) list"
  closes :: nat
  write_reply :: "int \<times> error option"
  close_reply :: "error option"

definition mock :: "mock_writer WriteAtCloser" where
  "mock = \<lparr>wClose = (\<lambda>m. (close_reply m, m\<lparr>closes := Suc (closes m)\<rparr>)),
           wWriteAt = (\<lambda>m p off. (write_reply m, m\<lparr>written := written m @ [(p, off)]\<rparr>))\<rparr>"

definition new_mock :: "int \<times> error option \<Rightarrow> error option \<Rightarrow> mock_writer" where
  "new_mock wr cr = \<lparr>written = [], closes = 0, write_reply = wr, close_reply = cr\<rparr>"

text \<open>
  A reader over a script of chunks: each \<open>Read\<close> hands out the next chunk with its
  error, or as much of it as fits with no error; after the script it returns
  \<open>0, EOF\<close>.
\<close>

fun script_Read :: "(bytes \<times> error option) list Reader" where
  "script_Read [] k = (([], Some EOF), [])"
| "script_Read ((bs, e) # rest) k =
     (if length bs \<le> k then ((bs, e), rest)
      else ((take k bs, None), (drop k bs, e) # rest))"

section \<open>Close\<close>

lemma Close_from_states: "snd (Close_from I err mw) = map (\<lambda>w. snd (wClose I w)) mw"
proof (induction mw arbitrary: err)
  case Nil
  show ?case by simp
next
  case (Cons w ws)
  obtain e w' where c: "wClose I w = (e, w')" by (cases "wClose I w")
  obtain r ws' where rest: "Close_from I (if e \<noteq> None then e else err) ws = (r, ws')"
    by (cases "Close_from I (if e \<noteq> None then e else err) ws")
  have "ws' = map (\<lambda>w. snd (wClose I w)) ws"
    using Cons.IH [of "if e \<noteq> None then e else err"] rest by simp
  then show ?case using c rest by simp
qed

lemma Close_from_error:
  "fst (Close_from I err mw) =
     (if close_errors I mw = [] then err else Some (last (close_errors I mw)))"
proof (induction mw arbitrary: err)
  case Nil
  show ?case by (simp add: close_errors_def)
next
  case (Cons w ws)
  obtain e w' where c: "wClose I w = (e, w')" by (cases "wClose I w")
  obtain r ws' where rest: "Close_from I (if e \<noteq> None then e else err) ws = (r, ws')"
    by (cases "Close_from I (if e \<noteq> None then e else err) ws")
  have r: "r = (if close_errors I ws = [] then (if e \<noteq> None then e else err)
                else Some (last (close_errors I ws)))"
    using Cons.IH [of "if e \<noteq> None then e else err"] rest by simp
  have ce: "close_errors I (w # ws) = (case e of None \<Rightarrow> [] | Some x \<Rightarrow> [x]) @ close_errors I ws"
    using c by (simp add: close_errors_def)
  show ?case
    using c rest r ce by (cases e) auto
qed

text \<open>
  C7. \<open>Close\<close> calls \<open>Close\<close> on every underlying writer, whether or not an earlier
  close failed: the resulting state of each writer is the state its own \<open>Close\<close>
  leaves. The result is nil when no close returned an error, and otherwise the error
  of the last writer whose close returned one.
\<close>

theorem Close_closes_all_returns_last_error:
  "snd (Close I mw) = map (\<lambda>w. snd (wClose I w)) mw \<and>
   fst (Close I mw) =
     (if close_errors I mw = [] then None else Some (last (close_errors I mw)))"
  by (simp add: Close_def Close_from_states Close_from_error)

section \<open>WriteAt\<close>

lemma WriteAt_Cons_full:
  assumes "full_write I p off w"
  shows "WriteAt I (w # ws) p off =
           (fst (WriteAt I ws p off), snd (wWriteAt I w p off) # snd (WriteAt I ws p off))"
proof -
  obtain n err w' where c: "wWriteAt I w p off = ((n, err), w')"
    by (cases "wWriteAt I w p off") auto
  with assms have n: "n = int (length p)"
    and e: "err = None \<or> (\<exists>e. err = Some e \<and> errors_Is e EOF)"
    by (auto simp: full_write_def split: option.splits)
  show ?thesis using c n e by (auto split: prod.splits)
qed

lemma WriteAt_Cons_not_full:
  assumes "\<not> full_write I p off w"
  shows "fst (WriteAt I (w # ws) p off) \<noteq> None \<and>
         snd (WriteAt I (w # ws) p off) = snd (wWriteAt I w p off) # ws"
proof -
  obtain n err w' where c: "wWriteAt I w p off = ((n, err), w')"
    by (cases "wWriteAt I w p off") auto
  with assms have "n \<noteq> int (length p) \<or> (\<exists>e. err = Some e \<and> \<not> errors_Is e EOF)"
    by (auto simp: full_write_def split: option.splits)
  then show ?thesis using c by (cases err) auto
qed

lemma WriteAt_success_iff:
  "(fst (WriteAt I mw p off) = None) = list_all (full_write I p off) mw"
proof (induction mw)
  case Nil
  show ?case by simp
next
  case (Cons w ws)
  show ?case
  proof (cases "full_write I p off w")
    case True
    then show ?thesis using Cons.IH by (simp add: WriteAt_Cons_full del: WriteAt.simps)
  next
    case False
    then show ?thesis using WriteAt_Cons_not_full [OF False, of ws] by simp
  qed
qed

lemma WriteAt_states:
  "snd (WriteAt I mw p off) =
     map (\<lambda>w. snd (wWriteAt I w p off)) (takeWhile (full_write I p off) mw) @
     (case dropWhile (full_write I p off) mw of
        [] \<Rightarrow> []
      | w # rest \<Rightarrow> snd (wWriteAt I w p off) # rest)"
proof (induction mw)
  case Nil
  show ?case by simp
next
  case (Cons w ws)
  show ?case
  proof (cases "full_write I p off w")
    case True
    then show ?thesis using Cons.IH by (simp add: WriteAt_Cons_full del: WriteAt.simps)
  next
    case False
    then show ?thesis using WriteAt_Cons_not_full [OF False, of ws] by simp
  qed
qed

text \<open>
  C1, as stated, says that the write of \<open>p\<close> at \<open>off\<close> reaches every underlying
  writer. It does not when a writer fails: here the first of two writers reports a
  short write with an error, \<open>WriteAt\<close> returns that error at once, and the second
  writer has received no call (\<open>written = []\<close>).
\<close>

theorem WriteAt_skips_writers_after_failure:
  "WriteAt mock [new_mock (1, Some (New ''disk full'')) None, new_mock (3, None) None] ''abc'' 0 =
     (Some (New ''disk full''),
      [\<lparr>written = [(''abc'', 0)], closes = 0,
          write_reply = (1, Some (New ''disk full'')), close_reply = None\<rparr>,
       \<lparr>written = [], closes = 0, write_reply = (3, None), close_reply = None\<rparr>])"
  by (simp add: mock_def new_mock_def)

text \<open>
  C1, amended. \<open>WriteAt\<close> passes the same \<open>p\<close> and \<open>off\<close> to the writers in order.
  It returns nil exactly when every writer completes the write (\<open>n = len(p)\<close> with an
  error that is nil or \<open>io.EOF\<close>), and then every writer has received the write.
  Otherwise it returns an error; the writers before the first one that does not
  complete the write, and that one, have received the write, and the writers after it
  are left as they were.
\<close>

theorem WriteAt_succeeds_iff_every_write_completes:
  "(fst (WriteAt I mw p off) = None) = list_all (full_write I p off) mw \<and>
   snd (WriteAt I mw p off) =
     map (\<lambda>w. snd (wWriteAt I w p off)) (takeWhile (full_write I p off) mw) @
     (case dropWhile (full_write I p off) mw of
        [] \<Rightarrow> []
      | w # rest \<Rightarrow> snd (wWriteAt I w p off) # rest)"
  using WriteAt_success_iff [of I mw p off] WriteAt_states [of I mw p off] by simp

section \<open>CopyNAt\<close>



text \<open>Over a script the loop always returns.\<close>

lemma script_Read_loop_returns:
  "ReadAtLeast_loop script_Read k s acc err \<noteq> None"
proof (induction s arbitrary: acc err)
  case Nil
  show ?case
    by (subst ReadAtLeast_loop.simps, subst ReadAtLeast_loop.simps) simp
next
  case (Cons c s)
  obtain bs e where c: "c = (bs, e)" by (cases c)
  show ?case
  proof (cases "length acc < k \<and> err = None")
    case False
    then show ?thesis by (subst ReadAtLeast_loop.simps) auto
  next
    case True
    show ?thesis
    proof (cases "length bs \<le> k - length acc")
      case le: True
      then show ?thesis using True c Cons.IH
        by (subst ReadAtLeast_loop.simps) simp
    next
      case gt: False
      then show ?thesis using True c
        by (subst ReadAtLeast_loop.simps, subst ReadAtLeast_loop.simps) simp
    qed
  qed
qed

lemma script_Read_ReadAtLeast_returns: "ReadAtLeast script_Read s k \<noteq> None"
  using script_Read_loop_returns [of k s "[]" None]
  by (auto simp: ReadAtLeast_def split: option.splits)

lemma script_Read_CopyNAt_returns: "CopyNAt I script_Read mw s N off \<noteq> None"
  using script_Read_ReadAtLeast_returns [of s "nat N"]
  by (auto simp: CopyNAt_def split: option.splits prod.splits)




section \<open>HandleOptions\<close>

lemma allowedHeaders_filter:
  "allowedHeaders canon trim vs = filter (\<lambda>h. h \<noteq> []) (map (\<lambda>v. canon (trim v)) vs)"
  by (induction vs) auto

text \<open>
  C8. On a response that has not been started, \<open>HandleOptions\<close> sets
  \<open>Access-Control-Allow-Methods\<close> to the value of the request's
  \<open>Access-Control-Request-Method\<close> header; it sets \<open>Access-Control-Allow-Headers\<close>
  to the request's \<open>Access-Control-Request-Headers\<close> values, each trimmed and
  canonicalized, without those that are then empty (and leaves the header alone when
  none remains); and it responds 200 with no body.
\<close>

theorem HandleOptions_echoes_method_and_headers:
  assumes "status w = None"
  shows "header (HandleOptions canon trim r w) ''Access-Control-Allow-Methods'' =
           [Get (Header r) ''Access-Control-Request-Method''] \<and>
         header (HandleOptions canon trim r w) ''Access-Control-Allow-Headers'' =
           (if filter (\<lambda>h. h \<noteq> []) (map (\<lambda>v. canon (trim v)) (Header r ''Access-Control-Request-Headers'')) = []
            then header w ''Access-Control-Allow-Headers''
            else filter (\<lambda>h. h \<noteq> []) (map (\<lambda>v. canon (trim v)) (Header r ''Access-Control-Request-Headers''))) \<and>
         status (HandleOptions canon trim r w) = Some 200 \<and>
         body (HandleOptions canon trim r w) = body w"
  using assms
  by (simp add: HandleOptions_def Let_def SetHeader_def WriteHeader_def allowedHeaders_filter)

text \<open>
  The theorem at a request for \<open>POST\<close> with the header values \<open>" content-type"\<close>,
  \<open>"  "\<close> and \<open>"x-SIZES "\<close>.
\<close>

theorem HandleOptions_echoes_method_and_headers_witness:
  "status NewRecorder = None \<and>
   header (HandleOptions ascii_CanonicalHeaderKey ascii_TrimSpace options_request NewRecorder)
     ''Access-Control-Allow-Methods'' = [''POST''] \<and>
   header (HandleOptions ascii_CanonicalHeaderKey ascii_TrimSpace options_request NewRecorder)
     ''Access-Control-Allow-Headers'' = [''Content-Type'', ''X-Sizes''] \<and>
   status (HandleOptions ascii_CanonicalHeaderKey ascii_TrimSpace options_request NewRecorder) = Some 200"
proof -
  have h: "status NewRecorder = None" by (simp add: NewRecorder_def)
  have e1: "ascii_CanonicalHeaderKey (ascii_TrimSpace '' content-type'') = ''Content-Type''"
    by code_simp
  have e2: "ascii_CanonicalHeaderKey (ascii_TrimSpace ''  '') = []"
    by code_simp
  have e3: "ascii_CanonicalHeaderKey (ascii_TrimSpace ''x-SIZES '') = ''X-Sizes''"
    by code_simp
  show ?thesis
    using h HandleOptions_echoes_method_and_headers
      [OF h, of ascii_CanonicalHeaderKey ascii_TrimSpace options_request]
    by (simp add: options_request_def no_values_def Get_def e1 e2 e3)
qed

section \<open>HandleGetAllTopics\<close>

lemma HandleGetAllTopics_ok:
  assumes "ListTopics Q (q s) (Get (Query r) ''prefix'') (Get (Query r) ''suffix'') (Get (Query r) ''regex'')
             = ((topics, None), q')"
    and "status w = None"
  shows "HandleGetAllTopics Q quote tok st s r w =
          (if Get (Header r) ''Accept'' = ''application/json''
           then w\<lparr>header := (header w)(''Content-Type'' := [''application/json'']), status := Some 200,
                  body := body w @ Marshal_topics quote (Some (case topics of None \<Rightarrow> [] | Some ts \<Rightarrow> ts))\<rparr>
           else w\<lparr>header := (header w)(''Content-Type'' := [''text/csv'']), status := Some 200,
                  body := body w @ Join (case topics of None \<Rightarrow> [] | Some ts \<Rightarrow> ts) '',''\<rparr>,
           s\<lparr>q := q'\<rparr>)"
  using assms
  by (cases topics)
     (simp_all add: HandleGetAllTopics_def Let_def SetHeader_def WriteHeader_def Write_def ContentType_def)

text \<open>
  C6. When \<open>ListTopics\<close> returns no error and the response has not been started: if
  the \<open>Accept\<close> header is \<open>application/json\<close>, the handler writes the object
  \<open>{"topics":[...]}\<close> of the topics, each in its JSON encoding, with
  \<open>Content-Type: application/json\<close>; with any other \<open>Accept\<close> value it writes the
  topic names joined with commas, with \<open>Content-Type: text/csv\<close>. The status is 200.
\<close>

theorem HandleGetAllTopics_json_or_csv:
  assumes "ListTopics Q (q s) (Get (Query r) ''prefix'') (Get (Query r) ''suffix'') (Get (Query r) ''regex'')
             = ((topics, None), q')"
    and "status w = None"
  shows \<open>fst (HandleGetAllTopics Q quote tok st s r w) =
          (if Get (Header r) ''Accept'' = ''application/json''
           then w\<lparr>header := (header w)(''Content-Type'' := [''application/json'']), status := Some 200,
                  body := body w @ ''{"topics":['' @
                            Join (map quote (case topics of None \<Rightarrow> [] | Some ts \<Rightarrow> ts)) '','' @ '']}''\<rparr>
           else w\<lparr>header := (header w)(''Content-Type'' := [''text/csv'']), status := Some 200,
                  body := body w @ Join (case topics of None \<Rightarrow> [] | Some ts \<Rightarrow> ts) '',''\<rparr>)\<close>
  using HandleGetAllTopics_ok [OF assms, of quote tok st]
  by (simp add: Marshal_topics_def)

lemma ListTopics_mockQ:
  "ListTopics mockQ (q (test_server (new_mock_queue (ts, None) mt ct)))
       (Get (Query (topics_request accept)) ''prefix'')
       (Get (Query (topics_request accept)) ''suffix'')
       (Get (Query (topics_request accept)) ''regex'') =
     ((ts, None),
      \<lparr>calls = [CallListTopics [] [] []], topics_reply = (ts, None),
       modify_reply = mt, consume_answer = ct\<rparr>)"
  by (simp add: mockQ_def test_server_def new_mock_queue_def topics_request_def no_values_def Get_def)

text \<open>The theorem at the topics \<open>t1\<close> and \<open>t2\<close>, for each of the two formats.\<close>

theorem HandleGetAllTopics_json_or_csv_witness:
  \<open>status NewRecorder = None \<and>
   fst (HandleGetAllTopics mockQ quote_plain test_token test_status
     (test_server (new_mock_queue (Some [''t1'', ''t2''], None) (\<lparr>MinOffset = 0, MaxOffset = 0\<rparr>, None) (0, None)))
     (topics_request ''application/json'') NewRecorder) =
     \<lparr>header = no_values(''Content-Type'' := [''application/json'']), status = Some 200,
      body = ''{"topics":["t1","t2"]}''\<rparr> \<and>
   fst (HandleGetAllTopics mockQ quote_plain test_token test_status
     (test_server (new_mock_queue (Some [''t1'', ''t2''], None) (\<lparr>MinOffset = 0, MaxOffset = 0\<rparr>, None) (0, None)))
     (topics_request ''text/csv'') NewRecorder) =
     \<lparr>header = no_values(''Content-Type'' := [''text/csv'']), status = Some 200,
      body = ''t1,t2''\<rparr>\<close>
proof -
  have h: "status NewRecorder = None" by (simp add: NewRecorder_def)
  show ?thesis
    using h
      HandleGetAllTopics_json_or_csv
        [where quote = quote_plain and tok = test_token and st = test_status,
         OF ListTopics_mockQ
           [where ts = "Some [''t1'', ''t2'']" and mt = "(\<lparr>MinOffset = 0, MaxOffset = 0\<rparr>, None)"
              and ct = "(0, None)" and accept = "''application/json''"] h]
      HandleGetAllTopics_json_or_csv
        [where quote = quote_plain and tok = test_token and st = test_status,
         OF ListTopics_mockQ
           [where ts = "Some [''t1'', ''t2'']" and mt = "(\<lparr>MinOffset = 0, MaxOffset = 0\<rparr>, None)"
              and ct = "(0, None)" and accept = "''text/csv''"] h]
    by (simp add: topics_request_def no_values_def Get_def NewRecorder_def quote_plain_def)
qed

text \<open>
  C10. When \<open>ListTopics\<close> returns the nil slice and no error, and the response is
  fresh, the body of the JSON response is exactly \<open>{"topics":[]}\<close> and the body of
  the CSV response is empty.
\<close>

theorem HandleGetAllTopics_nil_is_empty_list:
  assumes "ListTopics Q (q s) (Get (Query r) ''prefix'') (Get (Query r) ''suffix'') (Get (Query r) ''regex'')
             = ((None, None), q')"
    and "status w = None" and "body w = []"
  shows \<open>body (fst (HandleGetAllTopics Q quote tok st s r w)) =
          (if Get (Header r) ''Accept'' = ''application/json'' then ''{"topics":[]}'' else [])\<close>
  using HandleGetAllTopics_ok [OF assms(1,2), of quote tok st] assms(3)
  by (simp add: Marshal_topics_def)

text \<open>
  The theorem at the mock queue that returns nil, for each of the two formats; a nil
  slice itself would be written \<open>{"topics":null}\<close>.
\<close>

theorem HandleGetAllTopics_nil_is_empty_list_witness:
  \<open>status NewRecorder = None \<and> body NewRecorder = [] \<and>
   body (fst (HandleGetAllTopics mockQ quote_plain test_token test_status
     (test_server (new_mock_queue (None, None) (\<lparr>MinOffset = 0, MaxOffset = 0\<rparr>, None) (0, None)))
     (topics_request ''application/json'') NewRecorder)) = ''{"topics":[]}'' \<and>
   body (fst (HandleGetAllTopics mockQ quote_plain test_token test_status
     (test_server (new_mock_queue (None, None) (\<lparr>MinOffset = 0, MaxOffset = 0\<rparr>, None) (0, None)))
     (topics_request ''text/csv'') NewRecorder)) = [] \<and>
   Marshal_topics quote_plain None = ''{"topics":null}''\<close>
proof -
  have h: "status NewRecorder = None" and b: "body NewRecorder = []"
    by (simp_all add: NewRecorder_def)
  show ?thesis
    using h b
      HandleGetAllTopics_nil_is_empty_list
        [where quote = quote_plain and tok = test_token and st = test_status,
         OF ListTopics_mockQ
           [where ts = None and mt = "(\<lparr>MinOffset = 0, MaxOffset = 0\<rparr>, None)"
              and ct = "(0, None)" and accept = "''application/json''"] h b]
      HandleGetAllTopics_nil_is_empty_list
        [where quote = quote_plain and tok = test_token and st = test_status,
         OF ListTopics_mockQ
           [where ts = None and mt = "(\<lparr>MinOffset = 0, MaxOffset = 0\<rparr>, None)"
              and ct = "(0, None)" and accept = "''text/csv''"] h b]
    by (simp add: topics_request_def no_values_def Get_def Marshal_topics_def)
qed

section \<open>filepath.Clean\<close>

text \<open>
  \<open>Clean\<close> returns a path that it leaves unchanged, never the empty string, and
  made of bytes of its argument, separators and dots.
\<close>

lemma Clean_loop_slash:
  "Clean_loop rooted (CHR ''/'' # rest) out dd = Clean_loop rooted rest out dd"
  by (simp add: Clean_loop.simps)

lemma dropWhile_nsl_cases: "dropWhile nsl s = [] \<or> hd (dropWhile nsl s) = CHR ''/''"
  by (metis (mono_tags, lifting) hd_dropWhile)

lemma Clean_loop_dot:
  assumes "c \<noteq> CHR ''/''" and "takeWhile nsl (c # rest) = ''.''"
  shows "Clean_loop rooted (c # rest) out dd = Clean_loop rooted (dropWhile nsl (c # rest)) out dd"
proof -
  from assms have c: "c = CHR ''.''" and t: "takeWhile nsl rest = []" by (auto split: if_splits)
  from t have r: "rest = [] \<or> hd rest = CHR ''/''"
    by (cases rest) (auto split: if_splits)
  from t have d: "dropWhile nsl rest = rest"
    by (cases rest) (auto split: if_splits)
  show ?thesis using c r d by (subst Clean_loop.simps) auto
qed

lemma Clean_loop_dotdot:
  assumes "c \<noteq> CHR ''/''" and "takeWhile nsl (c # rest) = ''..''"
  shows "Clean_loop rooted (c # rest) out dd =
          (if length out > dd then
             Clean_loop rooted (dropWhile nsl (c # rest)) (take (backtrack out dd (length out - 1)) out) dd
           else if \<not> rooted then
             Clean_loop rooted (dropWhile nsl (c # rest))
               ((if out \<noteq> [] then out @ ''/'' else out) @ ''..'')
               (length ((if out \<noteq> [] then out @ ''/'' else out) @ ''..''))
           else Clean_loop rooted (dropWhile nsl (c # rest)) out dd)"
proof -
  from assms have c: "c = CHR ''.''" and t: "takeWhile nsl rest = ''.''" by (auto split: if_splits)
  from t obtain rest' where r: "rest = CHR ''.'' # rest'" and t': "takeWhile nsl rest' = []"
    by (cases rest) (auto split: if_splits)
  from t' have r': "rest' = [] \<or> hd rest' = CHR ''/''"
    by (cases rest') (auto split: if_splits)
  from t' have d: "dropWhile nsl rest' = rest'"
    by (cases rest') (auto split: if_splits)
  show ?thesis using c r r' d by (subst Clean_loop.simps) auto
qed

lemma Clean_loop_real:
  assumes "c \<noteq> CHR ''/''" and "takeWhile nsl (c # rest) \<noteq> ''.''" and "takeWhile nsl (c # rest) \<noteq> ''..''"
  shows "Clean_loop rooted (c # rest) out dd =
           Clean_loop rooted (dropWhile nsl (c # rest))
             ((if rooted \<and> length out \<noteq> 1 \<or> \<not> rooted \<and> length out \<noteq> 0 then out @ ''/'' else out)
               @ takeWhile nsl (c # rest)) dd"
proof -
  have n2: "\<not> (c = CHR ''.'' \<and> (rest = [] \<or> hd rest = CHR ''/''))"
    using assms(2) by (cases rest) auto
  have n3: "\<not> (c = CHR ''.'' \<and> hd rest = CHR ''.'' \<and> (tl rest = [] \<or> hd (tl rest) = CHR ''/''))"
  proof
    assume a: "c = CHR ''.'' \<and> hd rest = CHR ''.'' \<and> (tl rest = [] \<or> hd (tl rest) = CHR ''/'')"
    with n2 have "rest \<noteq> []" by auto
    then obtain r1 rest' where r: "rest = r1 # rest'" by (cases rest) auto
    with a have "r1 = CHR ''.''" and "rest' = [] \<or> hd rest' = CHR ''/''" by auto
    then have "takeWhile nsl (c # rest) = ''..''" using a r by (cases rest') auto
    with assms(3) show False by simp
  qed
  have n1: "(c = CHR ''/'') = False" using assms(1) by simp
  have n2': "(c = CHR ''.'' \<and> (rest = [] \<or> hd rest = CHR ''/'')) = False" using n2 by simp
  have n3': "(c = CHR ''.'' \<and> hd rest = CHR ''.'' \<and> (tl rest = [] \<or> hd (tl rest) = CHR ''/'')) = False"
    using n3 by simp
  have "Clean_loop rooted (c # rest) out dd =
           Clean_loop rooted (dropWhile nsl rest)
             ((if rooted \<and> length out \<noteq> 1 \<or> \<not> rooted \<and> length out \<noteq> 0 then out @ ''/'' else out)
               @ c # takeWhile nsl rest) dd"
    by (subst Clean_loop.simps(2)) (simp only: n1 n2' n3' if_False)
  then show ?thesis using assms(1) by simp
qed

lemma Join_snoc: "Join (st @ [c]) sep = (if st = [] then c else Join st sep @ sep @ c)"
  by (induction st sep rule: Join.induct) auto

lemma Join_Cons: "Join (c # cs) sep = (if cs = [] then c else c @ sep @ Join cs sep)"
  by (cases cs) auto

lemma Join_nonempty: "st \<noteq> [] \<Longrightarrow> \<forall>c\<in>set st. c \<noteq> [] \<Longrightarrow> Join st sep \<noteq> []"
  by (induction st sep rule: Join.induct) auto

lemma Join_append_length: "length (Join a sep) \<le> length (Join (a @ b) sep)"
proof (induction b rule: rev_induct)
  case Nil
  show ?case by simp
next
  case (snoc x b)
  have "length (Join (a @ b) sep) \<le> length (Join ((a @ b) @ [x]) sep)"
    by (simp only: Join_snoc) simp
  with snoc show ?case by simp
qed

lemma backtrack_skip:
  assumes "dd \<le> lo" and "lo \<le> w" and "lo = dd \<or> out ! lo = CHR ''/''"
    and "\<forall>i. lo < i \<and> i \<le> w \<longrightarrow> out ! i \<noteq> CHR ''/''"
  shows "backtrack out dd w = lo"
  using assms
proof (induction w)
  case 0
  then show ?case by simp
next
  case (Suc v)
  show ?case
  proof (cases "lo = Suc v")
    case True
    with Suc.prems show ?thesis by auto
  next
    case False
    with Suc.prems have le: "lo \<le> v" by simp
    from Suc.prems le have "out ! Suc v \<noteq> CHR ''/''" and "Suc v > dd" by auto
    moreover have "backtrack out dd v = lo"
      using Suc.IH Suc.prems le by auto
    ultimately show ?thesis by simp
  qed
qed

lemma stack_elems_nonempty: "list_all real_elem rs \<Longrightarrow> \<forall>c\<in>set (stack k rs). c \<noteq> []"
  by (auto simp: stack_def list_all_iff real_elem_def)

lemma stack_elems_noslash: "list_all real_elem rs \<Longrightarrow> \<forall>c\<in>set (stack k rs). CHR ''/'' \<notin> set c"
  by (auto simp: stack_def list_all_iff real_elem_def)

lemma render_push:
  assumes "\<forall>c\<in>set st. c \<noteq> []"
  shows "(if rooted \<and> length (render rooted st) \<noteq> 1 \<or> \<not> rooted \<and> length (render rooted st) \<noteq> 0
          then render rooted st @ ''/'' else render rooted st) @ e = render rooted (st @ [e])"
proof (cases "st = []")
  case True
  then show ?thesis by (simp add: render_def)
next
  case False
  with assms have "Join st ''/'' \<noteq> []" using Join_nonempty by blast
  with False show ?thesis by (simp add: render_def Join_snoc)
qed

lemma real_elem_noslash: "real_elem x \<Longrightarrow> \<forall>i<length x. x ! i \<noteq> CHR ''/''"
  by (metis nth_mem real_elem_def)

lemma mark_le_render:
  assumes "clean_form rooted k rs"
  shows "mark rooted k \<le> length (render rooted (stack k rs))"
proof (cases rooted)
  case True
  then show ?thesis by (simp add: mark_def render_def)
next
  case False
  then show ?thesis
    using Join_append_length [of "replicate k ''..''" "''/''" rs]
    by (simp add: mark_def render_def stack_def)
qed

lemma render_longer_iff:
  assumes "clean_form rooted k rs"
  shows "(length (render rooted (stack k rs)) > mark rooted k) = (rs \<noteq> [])"
proof (cases "rs = []")
  case True
  then show ?thesis using assms by (auto simp: mark_def render_def stack_def clean_form_def)
next
  case False
  then obtain rs0 x where rs: "rs = rs0 @ [x]" by (metis rev_exhaust)
  from assms rs have x: "x \<noteq> []" by (auto simp: clean_form_def real_elem_def)
  have ne: "\<forall>c\<in>set (stack k rs0). c \<noteq> []"
    using assms rs by (intro stack_elems_nonempty) (simp add: clean_form_def)
  have "render rooted (stack k rs) = render rooted (stack k rs0 @ [x])"
    by (simp add: rs stack_def)
  also have "length \<dots> > length (render rooted (stack k rs0))"
    using x by (auto simp: render_def Join_snoc)
  finally have "length (render rooted (stack k rs)) > length (render rooted (stack k rs0))" .
  moreover have "mark rooted k \<le> length (render rooted (stack k rs0))"
    using mark_le_render [of rooted k rs0] assms rs by (simp add: clean_form_def)
  ultimately show ?thesis using False by simp
qed

lemma backtrack_pop:
  assumes "clean_form rooted k (rs0 @ [x])"
  shows "take (backtrack (render rooted (stack k (rs0 @ [x]))) (mark rooted k)
                (length (render rooted (stack k (rs0 @ [x]))) - 1))
              (render rooted (stack k (rs0 @ [x]))) = render rooted (stack k rs0)"
proof -
  let ?out = "render rooted (stack k (rs0 @ [x]))"
  let ?R = "render rooted (stack k rs0)"
  from assms have rx: "real_elem x" and c0: "clean_form rooted k rs0"
    by (auto simp: clean_form_def)
  from rx have x: "x \<noteq> []" by (simp add: real_elem_def)
  from rx have xs: "\<forall>i<length x. x ! i \<noteq> CHR ''/''" by (rule real_elem_noslash)
  have st: "stack k (rs0 @ [x]) = stack k rs0 @ [x]" by (simp add: stack_def)
  show ?thesis
  proof (cases "stack k rs0 = []")
    case True
    then have out: "?out = ?R @ x" and R: "length ?R = mark rooted k"
      using c0 by (auto simp: st render_def stack_def mark_def clean_form_def)
    have "backtrack ?out (mark rooted k) (length ?out - 1) = length ?R"
    proof (rule backtrack_skip)
      show "mark rooted k \<le> length ?R" using R by simp
      show "length ?R \<le> length ?out - 1" using out x by (cases x) auto
      show "length ?R = mark rooted k \<or> ?out ! length ?R = CHR ''/''" using R by simp
      show "\<forall>i. length ?R < i \<and> i \<le> length ?out - 1 \<longrightarrow> ?out ! i \<noteq> CHR ''/''"
      proof (intro allI impI)
        fix i assume i: "length ?R < i \<and> i \<le> length ?out - 1"
        then have "i - length ?R < length x" using out x by (cases x) auto
        moreover have "?out ! i = x ! (i - length ?R)" using i out by (simp add: nth_append)
        ultimately show "?out ! i \<noteq> CHR ''/''" using xs by simp
      qed
    qed
    then show ?thesis using out by simp
  next
    case False
    have ne: "\<forall>c\<in>set (stack k rs0). c \<noteq> []"
      using c0 by (intro stack_elems_nonempty) (simp add: clean_form_def)
    have out: "?out = ?R @ ''/'' @ x"
      using False by (simp add: st render_def Join_snoc)
    have "backtrack ?out (mark rooted k) (length ?out - 1) = length ?R"
    proof (rule backtrack_skip)
      show "mark rooted k \<le> length ?R" using mark_le_render [OF c0] .
      show "length ?R \<le> length ?out - 1" using out by simp
      show "length ?R = mark rooted k \<or> ?out ! length ?R = CHR ''/''" using out by (simp add: nth_append)
      show "\<forall>i. length ?R < i \<and> i \<le> length ?out - 1 \<longrightarrow> ?out ! i \<noteq> CHR ''/''"
      proof (intro allI impI)
        fix i assume i: "length ?R < i \<and> i \<le> length ?out - 1"
        then have "i - length ?R - 1 < length x" using out x by (cases x) auto
        moreover have "?out ! i = x ! (i - length ?R - 1)"
          using i out by (auto simp: nth_append nth_Cons')
        ultimately show "?out ! i \<noteq> CHR ''/''" using xs by simp
      qed
    qed
    then show ?thesis using out by simp
  qed
qed

lemma takeWhile_real:
  assumes "c \<noteq> CHR ''/''" and "takeWhile nsl (c # rest) \<noteq> ''.''" and "takeWhile nsl (c # rest) \<noteq> ''..''"
  shows "real_elem (takeWhile nsl (c # rest))"
proof -
  have "CHR ''/'' \<notin> set (takeWhile nsl (c # rest))"
    by (metis (mono_tags, lifting) set_takeWhileD)
  moreover have "takeWhile nsl (c # rest) \<noteq> []" using assms(1) by simp
  ultimately show ?thesis using assms(2,3) by (simp add: real_elem_def)
qed

lemma dotdot_pop:
  assumes "c \<noteq> CHR ''/''" and "takeWhile nsl (c # rest) = ''..''" and "length out > dd"
  shows "Clean_loop rooted (c # rest) out dd =
           Clean_loop rooted (dropWhile nsl (c # rest)) (take (backtrack out dd (length out - 1)) out) dd"
  using Clean_loop_dotdot [OF assms(1,2), of rooted out dd] assms(3) by (simp only: if_True)

lemma dotdot_push:
  assumes "c \<noteq> CHR ''/''" and "takeWhile nsl (c # rest) = ''..''" and "\<not> length out > dd"
  shows "Clean_loop False (c # rest) out dd =
           Clean_loop False (dropWhile nsl (c # rest))
               ((if out \<noteq> [] then out @ ''/'' else out) @ ''..'')
               (length ((if out \<noteq> [] then out @ ''/'' else out) @ ''..''))"
  using Clean_loop_dotdot [OF assms(1,2), of False out dd] assms(3)
  by (simp only: if_False if_True not_False_eq_True)

lemma dotdot_skip:
  assumes "c \<noteq> CHR ''/''" and "takeWhile nsl (c # rest) = ''..''" and "\<not> length out > dd"
  shows "Clean_loop True (c # rest) out dd = Clean_loop True (dropWhile nsl (c # rest)) out dd"
  using Clean_loop_dotdot [OF assms(1,2), of True out dd] assms(3)
  by (simp only: if_False if_True not_True_eq_False)

lemma dots_push:
  "(if render False (stack k []) \<noteq> [] then render False (stack k []) @ ''/'' else render False (stack k [])) @ ''..''
     = render False (stack (Suc k) [])"
proof -
  have ne: "\<forall>c\<in>set (replicate k ''..''). c \<noteq> []" by simp
  have a: "replicate (Suc k) ''..'' = replicate k ''..'' @ [''..'']"
    by (simp add: replicate_append_same)
  have g: "(if X \<noteq> [] then X @ ''/'' else X) =
           (if False \<and> length X \<noteq> 1 \<or> \<not> False \<and> length X \<noteq> 0 then X @ ''/'' else X)" for X :: string
    by simp
  show ?thesis
    unfolding stack_def append_Nil2 g a by (rule render_push [OF ne])
qed

lemma Clean_loop_canon:
  assumes "clean_form rooted k rs"
  shows "\<exists>k' rs'. clean_form rooted k' rs' \<and>
           Clean_loop rooted s (render rooted (stack k rs)) (mark rooted k) = render rooted (stack k' rs')"
  using assms
proof (induction s arbitrary: k rs rule: length_induct)
  case (1 s)
  note IH = "1.IH" and cn = "1.prems"
  show ?case
  proof (cases s)
    case Nil
    have "Clean_loop rooted [] (render rooted (stack k rs)) (mark rooted k) = render rooted (stack k rs)"
      by (rule Clean_loop.simps(1))
    then show ?thesis using cn Nil by blast
  next
    case (Cons c rest)
    show ?thesis
    proof (cases "c = CHR ''/''")
      case True
      have "length rest < length s" using Cons by simp
      from IH [rule_format, OF this cn] show ?thesis
        unfolding Cons True Clean_loop_slash .
    next
      case False
      define e where "e = takeWhile nsl (c # rest)"
      define s' where "s' = dropWhile nsl (c # rest)"
      have len: "length s' < length s"
        using Cons False by (simp add: s'_def le_imp_less_Suc length_dropWhile_le)
      show ?thesis
      proof (cases "e = ''.''")
        case True
        have "Clean_loop rooted s (render rooted (stack k rs)) (mark rooted k) =
                Clean_loop rooted s' (render rooted (stack k rs)) (mark rooted k)"
          unfolding Cons s'_def using True unfolding e_def by (rule Clean_loop_dot [OF False])
        with IH [rule_format, OF len cn] show ?thesis by (simp only:)
      next
        case nd: False
        show ?thesis
        proof (cases "e = ''..''")
          case True
          then have e2: "takeWhile nsl (c # rest) = ''..''" by (simp only: e_def)
          show ?thesis
          proof (cases "rs = []")
            case rsn: False
            then obtain rs0 x where rs: "rs = rs0 @ [x]" by (metis rev_exhaust)
            from cn rs have c0: "clean_form rooted k rs0" by (simp add: clean_form_def)
            from cn rs have cx: "clean_form rooted k (rs0 @ [x])" by simp
            have gt: "length (render rooted (stack k rs)) > mark rooted k"
              using render_longer_iff [OF cn] rsn by simp
            have "Clean_loop rooted s (render rooted (stack k rs)) (mark rooted k) =
                    Clean_loop rooted s'
                      (take (backtrack (render rooted (stack k rs)) (mark rooted k)
                               (length (render rooted (stack k rs)) - 1))
                         (render rooted (stack k rs))) (mark rooted k)"
              unfolding Cons s'_def by (rule dotdot_pop [OF False e2 gt])
            also have "take (backtrack (render rooted (stack k rs)) (mark rooted k)
                               (length (render rooted (stack k rs)) - 1))
                         (render rooted (stack k rs)) = render rooted (stack k rs0)"
              unfolding rs by (rule backtrack_pop [OF cx])
            finally show ?thesis using IH [rule_format, OF len c0] by (simp only:)
          next
            case rse: True
            have ngt: "\<not> length (render rooted (stack k rs)) > mark rooted k"
              using render_longer_iff [OF cn] rse by simp
            show ?thesis
            proof (cases rooted)
              case True
              then have r: "rooted = True" by simp
              have ngt': "\<not> length (render True (stack k rs)) > mark True k"
                using ngt r by simp
              have "Clean_loop True s (render True (stack k rs)) (mark True k) =
                    Clean_loop True s' (render True (stack k rs)) (mark True k)"
                unfolding Cons s'_def by (rule dotdot_skip [OF False e2 ngt'])
              with IH [rule_format, OF len cn] show ?thesis unfolding r by (simp only:)
            next
              case unr: False
              have c1: "clean_form rooted (Suc k) []" using unr by (simp add: clean_form_def)
              have m: "mark False (Suc k) = length (render False (stack (Suc k) []))"
                by (simp add: mark_def render_def stack_def)
              from unr have r: "rooted = False" by simp
              have ngt': "\<not> length (render False (stack k [])) > mark False k"
                using ngt r rse by simp
              have "Clean_loop False s (render False (stack k [])) (mark False k) =
                    Clean_loop False s'
                      ((if render False (stack k []) \<noteq> [] then render False (stack k []) @ ''/''
                        else render False (stack k [])) @ ''..'')
                      (length ((if render False (stack k []) \<noteq> [] then render False (stack k []) @ ''/''
                        else render False (stack k [])) @ ''..''))"
                unfolding Cons s'_def by (rule dotdot_push [OF False e2 ngt'])
              also have "\<dots> = Clean_loop False s' (render False (stack (Suc k) [])) (mark False (Suc k))"
                unfolding dots_push m ..
              finally have "Clean_loop rooted s (render rooted (stack k rs)) (mark rooted k) =
                    Clean_loop rooted s' (render rooted (stack (Suc k) [])) (mark rooted (Suc k))"
                unfolding r rse .
              with IH [rule_format, OF len c1] show ?thesis by (simp only:)
            qed
          qed
        next
          case ndd: False
          have re: "real_elem e" unfolding e_def using takeWhile_real [OF False] nd ndd
            unfolding e_def by blast
          have c1: "clean_form rooted k (rs @ [e])" using cn re by (simp add: clean_form_def)
          have ne: "\<forall>c\<in>set (stack k rs). c \<noteq> []"
            using cn by (intro stack_elems_nonempty) (simp add: clean_form_def)
          have st: "stack k rs @ [e] = stack k (rs @ [e])" by (simp add: stack_def)
          have n1: "takeWhile nsl (c # rest) \<noteq> ''.''" and n2: "takeWhile nsl (c # rest) \<noteq> ''..''"
            using nd ndd unfolding e_def by blast+
          have "Clean_loop rooted s (render rooted (stack k rs)) (mark rooted k) =
                  Clean_loop rooted s'
                    ((if rooted \<and> length (render rooted (stack k rs)) \<noteq> 1 \<or>
                         \<not> rooted \<and> length (render rooted (stack k rs)) \<noteq> 0
                      then render rooted (stack k rs) @ ''/'' else render rooted (stack k rs)) @ e)
                    (mark rooted k)"
            unfolding Cons s'_def e_def by (rule Clean_loop_real [OF False n1 n2])
          also have "\<dots> = Clean_loop rooted s' (render rooted (stack k (rs @ [e]))) (mark rooted k)"
            unfolding render_push [OF ne] st ..
          finally show ?thesis using IH [rule_format, OF len c1] by (simp only:)
        qed
      qed
    qed
  qed
qed

lemma takeWhile_elem:
  assumes "CHR ''/'' \<notin> set c" and "T = [] \<or> hd T = CHR ''/''"
  shows "takeWhile nsl (c @ T) = c" and "dropWhile nsl (c @ T) = T"
proof -
  have t: "takeWhile nsl T = []" and d: "dropWhile nsl T = T"
    using assms(2) by (cases T; auto)+
  have a: "\<forall>x\<in>set c. nsl x" using assms(1) by auto
  show "takeWhile nsl (c @ T) = c" using a t by (simp add: takeWhile_append2)
  show "dropWhile nsl (c @ T) = T" using a d by (simp add: dropWhile_append2)
qed

lemma Join_tail: "Join (c # cs) ''/'' = c @ tail_of cs"
  by (simp add: Join_Cons tail_of_def)

lemma tail_of_head: "tail_of cs = [] \<or> hd (tail_of cs) = CHR ''/''"
  by (simp add: tail_of_def)

lemma Clean_loop_tail:
  "Clean_loop rooted (tail_of cs) out dd = Clean_loop rooted (Join cs ''/'') out dd"
  by (cases cs) (simp_all add: tail_of_def Clean_loop_slash)

lemma case_out: "(case x of [] \<Rightarrow> ''.'' | y # ys \<Rightarrow> x) = (if x = [] then ''.'' else x)"
  by (cases x) auto

lemma Clean_loop_reals:
  assumes "list_all real_elem cs" and "\<forall>c\<in>set dn. c \<noteq> []"
  shows "Clean_loop rooted (Join cs ''/'') (render rooted dn) dd = render rooted (dn @ cs)"
  using assms
proof (induction cs arbitrary: dn)
  case Nil
  show ?case by (simp add: Clean_loop.simps)
next
  case (Cons c cs)
  from Cons.prems have rc: "real_elem c" and rcs: "list_all real_elem cs" by auto
  from rc obtain c0 c' where c: "c = c0 # c'" and c0: "c0 \<noteq> CHR ''/''"
    by (cases c) (auto simp: real_elem_def)
  from rc have ns: "CHR ''/'' \<notin> set c" by (simp add: real_elem_def)
  have inp: "Join (c # cs) ''/'' = c0 # (c' @ tail_of cs)" by (simp add: Join_tail c)
  have tw: "takeWhile nsl (c0 # (c' @ tail_of cs)) = c"
    and dw: "dropWhile nsl (c0 # (c' @ tail_of cs)) = tail_of cs"
    using takeWhile_elem [OF ns tail_of_head [of cs]] by (simp_all add: c)
  have n1: "takeWhile nsl (c0 # (c' @ tail_of cs)) \<noteq> ''.''"
    and n2: "takeWhile nsl (c0 # (c' @ tail_of cs)) \<noteq> ''..''"
    using rc unfolding tw by (simp_all add: real_elem_def)
  have d': "\<forall>x\<in>set (dn @ [c]). x \<noteq> []" using Cons.prems(2) rc by (auto simp: real_elem_def)
  have "Clean_loop rooted (Join (c # cs) ''/'') (render rooted dn) dd =
          Clean_loop rooted (tail_of cs)
            ((if rooted \<and> length (render rooted dn) \<noteq> 1 \<or> \<not> rooted \<and> length (render rooted dn) \<noteq> 0
              then render rooted dn @ ''/'' else render rooted dn) @ c) dd"
    unfolding inp using Clean_loop_real [OF c0 n1 n2, of rooted "render rooted dn" dd]
    unfolding tw dw .
  also have "\<dots> = Clean_loop rooted (Join cs ''/'') (render rooted (dn @ [c])) dd"
    unfolding render_push [OF Cons.prems(2)] Clean_loop_tail ..
  also have "\<dots> = render rooted ((dn @ [c]) @ cs)"
    by (rule Cons.IH [OF rcs d'])
  finally show ?case by simp
qed

lemma Clean_loop_dots:
  assumes "list_all real_elem rs"
  shows "Clean_loop False (Join (replicate j ''..'' @ rs) ''/'') (render False (stack i [])) (mark False i)
           = render False (stack (i + j) rs)"
proof (induction j arbitrary: i)
  case 0
  have "\<forall>c\<in>set (replicate i ''..''). c \<noteq> []" by simp
  from Clean_loop_reals [OF assms this, of False "mark False i"]
  show ?case by (simp add: stack_def)
next
  case (Suc j)
  let ?cs = "replicate j ''..'' @ rs"
  have inp: "Join (replicate (Suc j) ''..'' @ rs) ''/'' = CHR ''.'' # (''.'' @ tail_of ?cs)"
    using Join_tail [of "''..''" ?cs] by simp
  have ns: "CHR ''/'' \<notin> set ''..''" by simp
  have tw: "takeWhile nsl (CHR ''.'' # (''.'' @ tail_of ?cs)) = ''..''"
    and dw: "dropWhile nsl (CHR ''.'' # (''.'' @ tail_of ?cs)) = tail_of ?cs"
    using takeWhile_elem [OF ns tail_of_head [of ?cs]] by simp_all
  have c0: "CHR ''.'' \<noteq> CHR ''/''" by simp
  have ngt: "\<not> length (render False (stack i [])) > mark False i"
    by (simp add: mark_def render_def stack_def)
  have m: "mark False (Suc i) = length (render False (stack (Suc i) []))"
    by (simp add: mark_def render_def stack_def)
  have "Clean_loop False (Join (replicate (Suc j) ''..'' @ rs) ''/'') (render False (stack i [])) (mark False i)
        = Clean_loop False (tail_of ?cs)
            ((if render False (stack i []) \<noteq> [] then render False (stack i []) @ ''/''
              else render False (stack i [])) @ ''..'')
            (length ((if render False (stack i []) \<noteq> [] then render False (stack i []) @ ''/''
              else render False (stack i [])) @ ''..''))"
    unfolding inp using dotdot_push [OF c0 tw ngt] unfolding dw .
  also have "\<dots> = Clean_loop False (Join ?cs ''/'') (render False (stack (Suc i) [])) (mark False (Suc i))"
    unfolding dots_push m Clean_loop_tail ..
  also have "\<dots> = render False (stack (Suc i + j) rs)" by (rule Suc.IH)
  finally show ?case by simp
qed

lemma Clean_dot: "Clean ''.'' = ''.''"
  by (simp add: Clean_def Clean_loop.simps)

lemma Clean_fixed:
  assumes "clean_form rooted k rs" and "render rooted (stack k rs) \<noteq> []"
  shows "Clean (render rooted (stack k rs)) = render rooted (stack k rs)"
proof (cases rooted)
  case True
  with assms(1) have k: "k = 0" and rs: "list_all real_elem rs" by (auto simp: clean_form_def)
  have r: "render True (stack k rs) = CHR ''/'' # Join rs ''/''"
    by (simp add: render_def stack_def k)
  have "Clean_loop True (Join rs ''/'') (render True []) 1 = render True ([] @ rs)"
    by (rule Clean_loop_reals [OF rs]) simp
  then have "Clean_loop True (Join rs ''/'') ''/'' 1 = CHR ''/'' # Join rs ''/''"
    by (simp add: render_def)
  moreover from True have "rooted = True" by simp
  ultimately show ?thesis using r by (simp add: Clean_def)
next
  case False
  from assms(1) have rs: "list_all real_elem rs" by (simp add: clean_form_def)
  have r: "render False (stack k rs) = Join (replicate k ''..'' @ rs) ''/''"
    by (simp add: render_def stack_def)
  from assms(2) False have "Join (replicate k ''..'' @ rs) ''/'' \<noteq> []"
    using r by simp
  then obtain c rest where cr: "Join (replicate k ''..'' @ rs) ''/'' = c # rest"
    by (cases "Join (replicate k ''..'' @ rs) ''/''") auto
  have "replicate k ''..'' @ rs \<noteq> []" using cr by (cases "replicate k ''..'' @ rs") auto
  then obtain x xs where st: "replicate k ''..'' @ rs = x # xs" by (cases "replicate k ''..'' @ rs") auto
  have "x \<in> set (stack k rs)" using st by (simp add: stack_def)
  with stack_elems_nonempty [OF rs, of k] stack_elems_noslash [OF rs, of k]
  have x: "x \<noteq> []" "CHR ''/'' \<notin> set x" by auto
  have "c = hd x" using cr st x by (cases x) (auto simp: Join_Cons split: if_splits)
  with x have c: "c \<noteq> CHR ''/''" by (cases x) auto
  have "Clean_loop False (Join (replicate k ''..'' @ rs) ''/'') (render False (stack 0 [])) (mark False 0)
          = render False (stack (0 + k) rs)"
    by (rule Clean_loop_dots [OF rs])
  then have "Clean_loop False (c # rest) [] 0 = c # rest"
    unfolding cr [symmetric] by (simp add: render_def stack_def mark_def)
  moreover from False have "rooted = False" by simp
  ultimately show ?thesis using r cr c by (simp add: Clean_def)
qed

lemma Clean_idem: "Clean (Clean s) = Clean s"
proof (cases s)
  case Nil
  then show ?thesis using Clean_dot by (simp add: Clean_def)
next
  case (Cons c rest)
  define rooted where "rooted = (c = CHR ''/'')"
  define out where "out = (if c = CHR ''/'' then Clean_loop True rest ''/'' 1 else Clean_loop False s [] 0)"
  have c0: "clean_form rooted 0 []" by (simp add: clean_form_def)
  have "\<exists>k' rs'. clean_form rooted k' rs' \<and> out = render rooted (stack k' rs')"
  proof (cases "c = CHR ''/''")
    case True
    from Clean_loop_canon [OF c0, of rest] show ?thesis
      using True by (simp add: out_def rooted_def render_def stack_def mark_def)
  next
    case False
    from Clean_loop_canon [OF c0, of s] show ?thesis
      using False by (simp add: out_def rooted_def render_def stack_def mark_def)
  qed
  then obtain k' rs' where cn: "clean_form rooted k' rs'" and o: "out = render rooted (stack k' rs')"
    by blast
  have cs: "Clean s = (if out = [] then ''.'' else out)"
    unfolding Cons out_def [unfolded Cons] by (simp add: Clean_def case_out split: list.splits)
  show ?thesis
  proof (cases "out = []")
    case True
    then show ?thesis using cs Clean_dot by simp
  next
    case False
    then show ?thesis using cs Clean_fixed [OF cn] o by simp
  qed
qed

lemma Clean_nonempty: "Clean s \<noteq> []"
  by (auto simp: Clean_def split: list.splits)

lemma Clean_loop_chars:
  "set (Clean_loop rooted s out dd) \<subseteq> set s \<union> set out \<union> {CHR ''/'', CHR ''.''}"
proof (induction rooted s out dd rule: Clean_loop.induct)
  case (1 rooted out dotdot)
  show ?case by (auto simp: Clean_loop.simps)
next
  case (2 rooted c rest out dotdot)
  have tk: "set (take n out) \<subseteq> set out" for n by (rule set_take_subset)
  have tw: "set (takeWhile nsl rest) \<subseteq> set rest" by (auto dest: set_takeWhileD)
  have dw: "set (dropWhile nsl rest) \<subseteq> set rest" by (auto dest: set_dropWhileD)
  have tl: "set (tl rest) \<subseteq> set rest" by (cases rest) auto
  let ?B = "set (c # rest) \<union> set out \<union> {CHR ''/'', CHR ''.''}"
  show ?case
  proof (cases "c = CHR ''/''")
    case True
    then have e1: "(c = CHR ''/'') = True" by simp
    have "Clean_loop rooted (c # rest) out dotdot = Clean_loop rooted rest out dotdot"
      by (subst Clean_loop.simps(2)) (simp only: e1 if_True)
    moreover have "set (Clean_loop rooted rest out dotdot) \<subseteq> ?B"
      using "2.IH"(1) [OF True] by auto
    ultimately show ?thesis by (simp only:)
  next
    case c1: False
    then have e1: "(c = CHR ''/'') = False" by simp
    show ?thesis
    proof (cases "c = CHR ''.'' \<and> (rest = [] \<or> hd rest = CHR ''/'')")
      case True
      then have e2: "(c = CHR ''.'' \<and> (rest = [] \<or> hd rest = CHR ''/'')) = True" by simp
      have "Clean_loop rooted (c # rest) out dotdot = Clean_loop rooted rest out dotdot"
        by (subst Clean_loop.simps(2)) (simp only: e1 e2 if_True if_False)
      moreover have "set (Clean_loop rooted rest out dotdot) \<subseteq> ?B"
        using "2.IH"(2) [OF c1 True] by auto
      ultimately show ?thesis by (simp only:)
    next
      case c2: False
      then have e2: "(c = CHR ''.'' \<and> (rest = [] \<or> hd rest = CHR ''/'')) = False" by simp
      show ?thesis
      proof (cases "c = CHR ''.'' \<and> hd rest = CHR ''.'' \<and> (tl rest = [] \<or> hd (tl rest) = CHR ''/'')")
        case c3: True
        then have e3: "(c = CHR ''.'' \<and> hd rest = CHR ''.'' \<and> (tl rest = [] \<or> hd (tl rest) = CHR ''/'')) = True"
          by simp
        show ?thesis
        proof (cases "length out > dotdot")
          case True
          then have e4: "(length out > dotdot) = True" by simp
          have "Clean_loop rooted (c # rest) out dotdot =
                  Clean_loop rooted (tl rest) (take (backtrack out dotdot (length out - 1)) out) dotdot"
            by (subst Clean_loop.simps(2)) (simp only: e1 e2 e3 e4 if_True if_False)
          moreover have "set (Clean_loop rooted (tl rest) (take (backtrack out dotdot (length out - 1)) out) dotdot)
                  \<subseteq> ?B"
            using "2.IH"(3) [OF c1 c2 c3 True] tk tl by fastforce
          ultimately show ?thesis by (simp only:)
        next
          case ngt: False
          then have e4: "(length out > dotdot) = False" by simp
          show ?thesis
          proof (cases rooted)
            case True
            then have e5: "(\<not> rooted) = False" by simp
            have "Clean_loop rooted (c # rest) out dotdot = Clean_loop rooted (tl rest) out dotdot"
              by (subst Clean_loop.simps(2)) (simp only: e1 e2 e3 e4 e5 if_True if_False)
            moreover have "True = rooted" using True by simp
            then have "\<not> \<not> rooted" by simp
            from "2.IH"(5) [OF c1 c2 c3 ngt this] tl
            have "set (Clean_loop rooted (tl rest) out dotdot) \<subseteq> ?B"
              by fastforce
            ultimately show ?thesis by (simp only:)
          next
            case False
            then have e5: "(\<not> rooted) = True" by simp
            have "Clean_loop rooted (c # rest) out dotdot =
                  Clean_loop rooted (tl rest)
                   ((if out \<noteq> [] then out @ ''/'' else out) @ ''..'')
                   (length ((if out \<noteq> [] then out @ ''/'' else out) @ ''..''))"
              by (subst Clean_loop.simps(2)) (simp only: e1 e2 e3 e4 e5 if_True if_False)
            moreover from "2.IH"(4) [OF c1 c2 c3 ngt False] tl
            have "set (Clean_loop rooted (tl rest)
                   ((if out \<noteq> [] then out @ ''/'' else out) @ ''..'')
                   (length ((if out \<noteq> [] then out @ ''/'' else out) @ ''..''))) \<subseteq> ?B"
              by (fastforce split: if_splits)
            ultimately show ?thesis by (simp only:)
          qed
        qed
      next
        case c3: False
        then have e3: "(c = CHR ''.'' \<and> hd rest = CHR ''.'' \<and> (tl rest = [] \<or> hd (tl rest) = CHR ''/'')) = False"
          by simp
        have "Clean_loop rooted (c # rest) out dotdot =
            Clean_loop rooted (dropWhile nsl rest)
          ((if rooted \<and> length out \<noteq> 1 \<or> \<not> rooted \<and> length out \<noteq> 0 then out @ ''/'' else out)
             @ c # takeWhile nsl rest) dotdot"
          by (subst Clean_loop.simps(2)) (simp only: e1 e2 e3 if_True if_False)
        moreover from "2.IH"(6) [OF c1 c2 c3] tw dw
        have "set (Clean_loop rooted (dropWhile nsl rest)
          ((if rooted \<and> length out \<noteq> 1 \<or> \<not> rooted \<and> length out \<noteq> 0 then out @ ''/'' else out)
             @ c # takeWhile nsl rest)
          dotdot) \<subseteq> ?B"
          by (fastforce split: if_splits)
        ultimately show ?thesis by (simp only:)
      qed
    qed
  qed
qed

lemma Clean_chars: "set (Clean s) \<subseteq> set s \<union> {CHR ''/'', CHR ''.''}"
proof (cases s)
  case Nil
  then show ?thesis by (simp add: Clean_def)
next
  case (Cons c rest)
  have a: "set (Clean_loop True rest ''/'' 1) \<subseteq> set rest \<union> {CHR ''/'', CHR ''.''}"
    using Clean_loop_chars [of True rest "''/''" 1] by auto
  have b: "set (Clean_loop False s [] 0) \<subseteq> set s \<union> {CHR ''/'', CHR ''.''}"
    using Clean_loop_chars [of False s "[]" 0] by auto
  show ?thesis using a b Cons
    by (auto simp: Clean_def split: list.splits if_splits)
qed

lemma to_lower_not_upper: "\<not> is_upper (to_lower c)"
proof (cases "is_upper c")
  case True
  then have "(of_char c :: nat) + 32 < 256" by (simp add: is_upper_def)
  then have "(of_char (char_of ((of_char c :: nat) + 32)) :: nat) = of_char c + 32"
    by simp
  then show ?thesis using True by (simp add: to_lower_def is_upper_def)
next
  case False
  then show ?thesis by (simp add: to_lower_def)
qed

lemma to_lower_ascii: "is_ascii c \<Longrightarrow> is_ascii (to_lower c)"
proof (cases "is_upper c")
  case True
  then have "(of_char c :: nat) + 32 < 256" by (simp add: is_upper_def)
  then have "(of_char (char_of ((of_char c :: nat) + 32)) :: nat) = of_char c + 32"
    by simp
  then show ?thesis using True by (simp add: to_lower_def is_upper_def is_ascii_def)
next
  case False
  assume "is_ascii c"
  with False show ?thesis by (simp add: to_lower_def)
qed

lemma to_lower_fixed: "\<not> is_upper c \<Longrightarrow> to_lower c = c"
  by (simp add: to_lower_def)

lemma Clean_lowered_chars:
  assumes "list_all is_ascii s" and "c \<in> set (Clean (map to_lower s))"
  shows "is_ascii c \<and> \<not> is_upper c"
proof -
  have "set (Clean (map to_lower s)) \<subseteq> set (map to_lower s) \<union> {CHR ''/'', CHR ''.''}"
    by (rule Clean_chars)
  with assms(2) have "c \<in> to_lower ` set s \<or> c = CHR ''/'' \<or> c = CHR ''.''" by auto
  then show ?thesis
  proof (elim disjE)
    assume "c \<in> to_lower ` set s"
    then obtain d where "d \<in> set s" and "c = to_lower d" by auto
    with assms(1) show ?thesis
      by (auto simp: list_all_iff to_lower_not_upper to_lower_ascii)
  next
    assume "c = CHR ''/''"
    then show ?thesis by (simp add: is_ascii_def is_upper_def)
  next
    assume "c = CHR ''.''"
    then show ?thesis by (simp add: is_ascii_def is_upper_def)
  qed
qed

lemma ToLower_Clean_ascii:
  assumes "list_all is_ascii s"
  shows "ToLower U (Clean (ToLower U s)) = Clean (ToLower U s) \<and>
         list_all (\<lambda>c. \<not> is_upper c) (Clean (ToLower U s))"
proof -
  let ?t = "Clean (map to_lower s)"
  note a = Clean_lowered_chars [OF assms]
  have asc: "list_all is_ascii ?t" using a by (simp add: list_all_iff)
  have nup: "list_all (\<lambda>c. \<not> is_upper c) ?t" using a by (simp add: list_all_iff)
  have fx: "map to_lower ?t = ?t"
    using a by (intro map_idI) (simp add: to_lower_fixed)
  show ?thesis using assms asc fx nup by (simp add: ToLower_def)
qed

lemma TrimPrefix_ascii: "list_all is_ascii s \<Longrightarrow> list_all is_ascii (TrimPrefix s pre)"
  by (auto simp: TrimPrefix_def list_all_iff dest: in_set_dropD)

section \<open>getTopic\<close>

text \<open>
  C4. \<open>getTopic\<close> strips the prefix \<open>/topics/\<close> from the path, lower-cases the
  rest and cleans it, in this order. The cleaned path is never empty; when it is
  \<open>.\<close> the result is \<open>ErrInvalidTopic\<close>, and otherwise it is the topic. An accepted
  topic is therefore not empty, not the path \<open>.\<close>, and cleaned: \<open>Clean\<close> leaves it
  unchanged. It is lower-case: for a path of ASCII bytes, \<open>ToLower\<close> leaves the topic
  unchanged and no letter \<open>A\<close> to \<open>Z\<close> occurs in it. (For a path with other bytes the
  topic is the cleaned result of Go's Unicode lower-casing, the parameter \<open>U\<close>.)
\<close>

theorem getTopic_normalized:
  "getTopic U r =
     (if Clean (ToLower U (TrimPrefix (Path r) ''/topics/'')) = ''.'' then Inl ErrInvalidTopic
      else Inr (Clean (ToLower U (TrimPrefix (Path r) ''/topics/'')))) \<and>
   (case getTopic U r of
      Inl e \<Rightarrow> e = ErrInvalidTopic
    | Inr topic \<Rightarrow>
        topic \<noteq> [] \<and> topic \<noteq> ''.'' \<and> Clean topic = topic \<and>
        (list_all is_ascii (Path r) \<longrightarrow>
           ToLower U topic = topic \<and> list_all (\<lambda>c. \<not> is_upper c) topic))"
proof -
  let ?s = "TrimPrefix (Path r) ''/topics/''"
  let ?t = "Clean (ToLower U ?s)"
  have ne: "?t \<noteq> []" by (rule Clean_nonempty)
  have g: "getTopic U r = (if ?t = ''.'' then Inl ErrInvalidTopic else Inr ?t)"
    using ne by (simp add: getTopic_def Let_def)
  have idem: "Clean ?t = ?t" by (rule Clean_idem)
  have low: "list_all is_ascii (Path r) \<longrightarrow>
               ToLower U ?t = ?t \<and> list_all (\<lambda>c. \<not> is_upper c) ?t"
    using ToLower_Clean_ascii [OF TrimPrefix_ascii] by blast
  show ?thesis
    unfolding g using ne idem low by simp
qed

text \<open>
  The theorem at the path \<open>/topics/Foo//Bar/../baz/\<close>, whose topic is \<open>foo/baz\<close>,
  and at \<open>/topics/\<close>, which has none.
\<close>

theorem getTopic_normalized_witness:
  "getTopic (map to_lower) (topic_request ''/topics/Foo//Bar/../baz/'') = Inr ''foo/baz'' \<and>
   list_all is_ascii (Path (topic_request ''/topics/Foo//Bar/../baz/'')) \<and>
   Clean ''foo/baz'' = ''foo/baz'' \<and>
   ToLower (map to_lower) ''foo/baz'' = ''foo/baz'' \<and>
   getTopic (map to_lower) (topic_request ''/topics/'') = Inl ErrInvalidTopic"
proof -
  have c1: "Clean (ToLower (map to_lower) (TrimPrefix ''/topics/Foo//Bar/../baz/'' ''/topics/'')) = ''foo/baz''"
    by code_simp
  have c2: "Clean (ToLower (map to_lower) (TrimPrefix ''/topics/'' ''/topics/'')) = ''.''"
    by code_simp
  have g1: "getTopic (map to_lower) (topic_request ''/topics/Foo//Bar/../baz/'') = Inr ''foo/baz''"
    using c1 by (simp add: getTopic_def topic_request_def)
  have a: "list_all is_ascii (Path (topic_request ''/topics/Foo//Bar/../baz/''))"
    by (simp add: topic_request_def is_ascii_def)
  have "case getTopic (map to_lower) (topic_request ''/topics/Foo//Bar/../baz/'') of
          Inl e \<Rightarrow> e = ErrInvalidTopic
        | Inr topic \<Rightarrow>
            topic \<noteq> [] \<and> topic \<noteq> ''.'' \<and> Clean topic = topic \<and>
            (list_all is_ascii (Path (topic_request ''/topics/Foo//Bar/../baz/'')) \<longrightarrow>
               ToLower (map to_lower) topic = topic \<and> list_all (\<lambda>c. \<not> is_upper c) topic)"
    using getTopic_normalized [of "map to_lower" "topic_request ''/topics/Foo//Bar/../baz/''"]
    by (rule conjunct2)
  then have p: "Clean ''foo/baz'' = ''foo/baz'' \<and> ToLower (map to_lower) ''foo/baz'' = ''foo/baz''"
    unfolding g1 sum.case using a by blast
  have "getTopic (map to_lower) (topic_request ''/topics/'') =
     (if Clean (ToLower (map to_lower) (TrimPrefix (Path (topic_request ''/topics/'')) ''/topics/'')) = ''.''
      then Inl ErrInvalidTopic
      else Inr (Clean (ToLower (map to_lower) (TrimPrefix (Path (topic_request ''/topics/'')) ''/topics/''))))"
    using getTopic_normalized [of "map to_lower" "topic_request ''/topics/''"]
    by (rule conjunct1)
  then have g2: "getTopic (map to_lower) (topic_request ''/topics/'') = Inl ErrInvalidTopic"
    using c2 by (simp add: topic_request_def)
  show ?thesis using g1 a p g2 by (simp only: simp_thms)
qed

section \<open>The topic of the examples\<close>

lemma getTopic_modify_request: "getTopic (map to_lower) (modify_request b) = Inr ''t1''"
proof -
  have "Clean (ToLower (map to_lower) (TrimPrefix ''/topics/T1/'' ''/topics/'')) = ''t1''"
    by code_simp
  then show ?thesis by (simp add: getTopic_def modify_request_def)
qed

lemma getTopic_consume_request: "getTopic (map to_lower) (consume_request i l) = Inr ''t1''"
proof -
  have "Clean (ToLower (map to_lower) (TrimPrefix ''/topics/t1'' ''/topics/'')) = ''t1''"
    by code_simp
  then show ?thesis by (simp add: getTopic_def consume_request_def)
qed

section \<open>HandleModifyTopic\<close>

text \<open>
  C3. For a request with a body that decodes to a \<open>ModifyRequest\<close>, a topic that
  \<open>getTopic\<close> accepts and a response that has not been started: if \<open>truncate\<close> is 0
  the handler responds 204 and leaves the server, with its queue, as it is: no method
  of the queue is called. Otherwise it calls \<open>ModifyTopic\<close>; when that returns no
  error it responds 200 with \<open>Content-Type: application/json\<close> and the body
  \<open>{"minOffset":...,"maxOffset":...}\<close> of the returned offsets, followed by a
  newline; when it returns an error the response is \<open>SetError\<close> of that error.
\<close>

theorem HandleModifyTopic_truncate:
  assumes "Body r = Some b" and "getTopic U r = Inr topic" and "decode b = Some request"
    and "status w = None"
  shows \<open>if Truncate request = 0
         then HandleModifyTopic Q U decode tok st s r w = (w\<lparr>status := Some 204\<rparr>, s)
         else (case ModifyTopic Q (q s) topic request of
                 ((info, None), q') \<Rightarrow>
                   HandleModifyTopic Q U decode tok st s r w =
                     (w\<lparr>header := (header w)(''Content-Type'' := [''application/json'']),
                        status := Some 200,
                        body := body w @ ''{"minOffset":'' @ FormatInt (MinOffset info) @
                                 '',"maxOffset":'' @ FormatInt (MaxOffset info) @ ''}'' @ [CHR 0x0A]\<rparr>,
                      s\<lparr>q := q'\<rparr>)
               | ((info, Some e), q') \<Rightarrow>
                   HandleModifyTopic Q U decode tok st s r w = (SetError tok st w e, s\<lparr>q := q'\<rparr>))\<close>
  using assms
  by (auto simp: HandleModifyTopic_def WriteHeader_def Write_def SetHeader_def ContentType_def
      Encode_TopicInfo_def split: prod.splits option.splits)

text \<open>
  The theorem at \<open>PATCH /topics/T1/\<close> over the mock queue, with \<open>truncate\<close> 0 (the
  queue has recorded no call) and with \<open>truncate\<close> 4 (it has recorded the one call of
  \<open>ModifyTopic\<close>, for the topic \<open>t1\<close>).
\<close>

theorem HandleModifyTopic_truncate_witness:
  \<open>Body (modify_request (Some \<lparr>Truncate = 0, Before = []\<rparr>)) = Some (Some \<lparr>Truncate = 0, Before = []\<rparr>) \<and>
   getTopic (map to_lower) (modify_request (Some \<lparr>Truncate = 0, Before = []\<rparr>)) = Inr ''t1'' \<and>
   test_decode (Some \<lparr>Truncate = 0, Before = []\<rparr>) = Some \<lparr>Truncate = 0, Before = []\<rparr> \<and>
   status NewRecorder = None \<and>
   HandleModifyTopic mockQ (map to_lower) test_decode test_token test_status
       (test_server (new_mock_queue (None, None) (\<lparr>MinOffset = 4, MaxOffset = 5\<rparr>, None) (0, None)))
       (modify_request (Some \<lparr>Truncate = 0, Before = []\<rparr>)) NewRecorder =
     (\<lparr>header = no_values, status = Some 204, body = []\<rparr>,
      \<lparr>q = \<lparr>calls = [], topics_reply = (None, None),
             modify_reply = (\<lparr>MinOffset = 4, MaxOffset = 5\<rparr>, None), consume_answer = (0, None)\<rparr>,
       defaultConsumeLimit = - 1, consumed = []\<rparr>) \<and>
   HandleModifyTopic mockQ (map to_lower) test_decode test_token test_status
       (test_server (new_mock_queue (None, None) (\<lparr>MinOffset = 4, MaxOffset = 5\<rparr>, None) (0, None)))
       (modify_request (Some \<lparr>Truncate = 4, Before = []\<rparr>)) NewRecorder =
     (\<lparr>header = no_values(''Content-Type'' := [''application/json'']), status = Some 200,
       body = ''{"minOffset":4,"maxOffset":5}'' @ [CHR 0x0A]\<rparr>,
      \<lparr>q = \<lparr>calls = [CallModifyTopic ''t1'' \<lparr>Truncate = 4, Before = []\<rparr>], topics_reply = (None, None),
             modify_reply = (\<lparr>MinOffset = 4, MaxOffset = 5\<rparr>, None), consume_answer = (0, None)\<rparr>,
       defaultConsumeLimit = - 1, consumed = []\<rparr>)\<close>
proof -
  have b: "Body (modify_request (Some x)) = Some (Some x)" for x
    by (simp add: modify_request_def)
  have d: "test_decode (Some x) = Some x" for x
    by (simp add: test_decode_def)
  have h: "status NewRecorder = None" by (simp add: NewRecorder_def)
  have f4: "FormatInt 4 = ''4''" and f5: "FormatInt 5 = ''5''" by code_simp+
  show ?thesis
    using b d h getTopic_modify_request [of "Some \<lparr>Truncate = 0, Before = []\<rparr>"]
      HandleModifyTopic_truncate
        [where decode = test_decode and Q = mockQ and tok = test_token and st = test_status
           and s = "test_server (new_mock_queue (None, None) (\<lparr>MinOffset = 4, MaxOffset = 5\<rparr>, None) (0, None))",
         OF b getTopic_modify_request d h, of "\<lparr>Truncate = 0, Before = []\<rparr>"]
      HandleModifyTopic_truncate
        [where decode = test_decode and Q = mockQ and tok = test_token and st = test_status
           and s = "test_server (new_mock_queue (None, None) (\<lparr>MinOffset = 4, MaxOffset = 5\<rparr>, None) (0, None))",
         OF b getTopic_modify_request d h, of "\<lparr>Truncate = 4, Before = []\<rparr>"]
    by (simp add: NewRecorder_def no_values_def new_mock_queue_def mockQ_def test_server_def f4 f5)
qed

section \<open>HandleConsume\<close>

lemma ParseInt_minus_nonpositive:
  assumes "ParseInt s = Some l" and "s \<noteq> []" and "hd s = CHR ''-''"
  shows "l \<le> 0"
  using assms by (cases s) (auto simp: ParseInt_def split: option.splits if_splits)

lemma ParseInt_empty: "ParseInt [] = None"
  by (simp add: ParseInt_def)

text \<open>
  C2, as stated, says that a limit that is present and does not parse fails the
  request before \<open>Consume\<close> is called. A value that starts with \<open>-\<close> is never parsed:
  for \<open>limit=-abc\<close> the handler calls \<open>Consume\<close> with the default limit (here \<open>-1\<close>)
  and returns its response.
\<close>

theorem HandleConsume_unparsed_negative_limit:
  "ParseInt ''-abc'' = None \<and>
   HandleConsume mockQ (map to_lower) test_token test_status
       (test_server (new_mock_queue (None, None) (\<lparr>MinOffset = 0, MaxOffset = 0\<rparr>, None) (2, None)))
       (consume_request ''0'' ''-abc'') NewRecorder =
     (NewRecorder,
      \<lparr>q = \<lparr>calls = [CallConsume ''t1'' 0 (- 1)], topics_reply = (None, None),
             modify_reply = (\<lparr>MinOffset = 0, MaxOffset = 0\<rparr>, None), consume_answer = (2, None)\<rparr>,
       defaultConsumeLimit = - 1, consumed = [2]\<rparr>)"
proof -
  have p: "ParseInt ''-abc'' = None"
    by (simp add: ParseInt_def ParseUint_def is_digit_def)
  have i: "ParseInt ''0'' = Some 0"
    by (simp add: ParseInt_def ParseUint_def is_digit_def)
  have a: "consume_args (map to_lower)
       (test_server (new_mock_queue (None, None) (\<lparr>MinOffset = 0, MaxOffset = 0\<rparr>, None) (2, None)))
       (consume_request ''0'' ''-abc'') = Inr (''t1'', 0, - 1)"
    using getTopic_consume_request [of "''0''" "''-abc''"] i
    by (simp add: consume_args_def Let_def consume_request_def Get_def no_values_def test_server_def)
  show ?thesis
    using p a
    by (simp add: HandleConsume_def consume_reply_def mockQ_def test_server_def new_mock_queue_def)
qed

text \<open>
  C2, amended. For a request whose topic and \<open>id\<close> are accepted: a \<open>limit\<close> that
  parses as a 64-bit integer is used as given when it is positive, and resolves to the
  server's default consume limit when it is 0 or less; a \<open>limit\<close> that does not parse
  resolves to the default when it is omitted (empty) or starts with \<open>-\<close>, and is the
  invalid-message-limit error otherwise. In that last case the handler returns
  \<open>SetError\<close> of the error with the server, and its queue, as they were: \<open>Consume\<close> is
  not called. In every other case the handler goes on to \<open>Consume\<close> with the resolved
  limit.
\<close>

theorem consume_limit_resolution:
  assumes "getTopic U r = Inr topic" and "ParseInt (Get (Query r) ''id'') = Some msg_id"
  shows "consume_args U s r =
           (case ParseInt (Get (Query r) ''limit'') of
              Some l \<Rightarrow> Inr (topic, msg_id, if l > 0 then l else defaultConsumeLimit s)
            | None \<Rightarrow>
                if Get (Query r) ''limit'' = [] \<or> hd (Get (Query r) ''limit'') = CHR ''-''
                then Inr (topic, msg_id, defaultConsumeLimit s)
                else Inl ErrInvalidMessageLimit) \<and>
         (if Get (Query r) ''limit'' \<noteq> [] \<and> hd (Get (Query r) ''limit'') \<noteq> CHR ''-'' \<and>
             ParseInt (Get (Query r) ''limit'') = None
          then HandleConsume Q U tok st s r w = (SetError tok st w ErrInvalidMessageLimit, s)
          else HandleConsume Q U tok st s r w =
                 consume_reply Q tok st s topic msg_id
                   (case ParseInt (Get (Query r) ''limit'') of
                      Some l \<Rightarrow> if l > 0 then l else defaultConsumeLimit s
                    | None \<Rightarrow> defaultConsumeLimit s) w)"
proof -
  let ?ql = "Get (Query r) ''limit''"
  have args: "consume_args U s r =
           (case ParseInt ?ql of
              Some l \<Rightarrow> Inr (topic, msg_id, if l > 0 then l else defaultConsumeLimit s)
            | None \<Rightarrow>
                if ?ql = [] \<or> hd ?ql = CHR ''-''
                then Inr (topic, msg_id, defaultConsumeLimit s)
                else Inl ErrInvalidMessageLimit)"
  proof (cases "?ql \<noteq> [] \<and> hd ?ql \<noteq> CHR ''-''")
    case True
    then show ?thesis using assms
      by (auto simp: consume_args_def Let_def split: option.splits)
  next
    case False
    show ?thesis
    proof (cases "ParseInt ?ql")
      case None
      then show ?thesis using assms False by (auto simp: consume_args_def Let_def)
    next
      case (Some l)
      with False have "?ql \<noteq> []" and "hd ?ql = CHR ''-''"
        using ParseInt_empty by auto
      from ParseInt_minus_nonpositive [OF Some this] have "l \<le> 0" .
      then show ?thesis using assms False Some by (auto simp: consume_args_def Let_def)
    qed
  qed
  show ?thesis
    unfolding args
    by (auto simp: HandleConsume_def args split: option.splits)
qed

text \<open>
  The theorem at \<open>limit=5\<close> (\<open>Consume\<close> is called with 5), \<open>limit=0\<close> (with the
  default, \<open>-1\<close>) and \<open>limit=x\<close> (the error; the queue has recorded no call).
\<close>

theorem consume_limit_resolution_witness:
  "getTopic (map to_lower) (consume_request ''7'' ''5'') = Inr ''t1'' \<and>
   ParseInt (Get (Query (consume_request ''7'' ''5'')) ''id'') = Some 7 \<and>
   consume_args (map to_lower)
       (test_server (new_mock_queue (None, None) (\<lparr>MinOffset = 0, MaxOffset = 0\<rparr>, None) (2, None)))
       (consume_request ''7'' ''5'') = Inr (''t1'', 7, 5) \<and>
   consume_args (map to_lower)
       (test_server (new_mock_queue (None, None) (\<lparr>MinOffset = 0, MaxOffset = 0\<rparr>, None) (2, None)))
       (consume_request ''7'' ''0'') = Inr (''t1'', 7, - 1) \<and>
   HandleConsume mockQ (map to_lower) test_token test_status
       (test_server (new_mock_queue (None, None) (\<lparr>MinOffset = 0, MaxOffset = 0\<rparr>, None) (2, None)))
       (consume_request ''7'' ''x'') NewRecorder =
     (\<lparr>header = no_values(''X-Error'' := [''invalid-message-limit'']), status = Some 400, body = []\<rparr>,
      \<lparr>q = \<lparr>calls = [], topics_reply = (None, None),
             modify_reply = (\<lparr>MinOffset = 0, MaxOffset = 0\<rparr>, None), consume_answer = (2, None)\<rparr>,
       defaultConsumeLimit = - 1, consumed = []\<rparr>)"
proof -
  have i: "ParseInt (Get (Query (consume_request ''7'' l)) ''id'') = Some 7" for l
    by (simp add: consume_request_def Get_def no_values_def ParseInt_def ParseUint_def is_digit_def)
  have l: "Get (Query (consume_request ''7'' l)) ''limit'' = l" for l
    by (simp add: consume_request_def Get_def no_values_def)
  have p5: "ParseInt ''5'' = Some 5" and p0: "ParseInt ''0'' = Some 0" and px: "ParseInt ''x'' = None"
    by (simp_all add: ParseInt_def ParseUint_def is_digit_def)
  show ?thesis
    using i [of "''5''"] getTopic_consume_request [of "''7''" "''5''"]
      consume_limit_resolution
        [where Q = mockQ and tok = test_token and st = test_status and w = NewRecorder
           and s = "test_server (new_mock_queue (None, None) (\<lparr>MinOffset = 0, MaxOffset = 0\<rparr>, None) (2, None))",
         OF getTopic_consume_request i, of "''5''"]
      consume_limit_resolution
        [where Q = mockQ and tok = test_token and st = test_status and w = NewRecorder
           and s = "test_server (new_mock_queue (None, None) (\<lparr>MinOffset = 0, MaxOffset = 0\<rparr>, None) (2, None))",
         OF getTopic_consume_request i, of "''0''"]
      consume_limit_resolution
        [where Q = mockQ and tok = test_token and st = test_status and w = NewRecorder
           and s = "test_server (new_mock_queue (None, None) (\<lparr>MinOffset = 0, MaxOffset = 0\<rparr>, None) (2, None))",
         OF getTopic_consume_request i, of "''x''"]
    by (simp add: l p5 p0 px test_server_def new_mock_queue_def SetError_def SetHeader_def
        WriteHeader_def NewRecorder_def no_values_def test_status_def)
qed

text \<open>
  C5. When the request is accepted and the queue's \<open>Consume\<close> returns the count 0
  and no error, the handler's response is \<open>SetError\<close> of \<open>ErrNoContent\<close>: the
  \<open>X-Error\<close> header carries the token of the no-content error, and the status is 204,
  not 200, on a response that \<open>Consume\<close> has not started.
\<close>

theorem HandleConsume_no_content:
  assumes "consume_args U s r = Inr (topic, msg_id, limit)"
    and "Consume Q (q s) topic msg_id limit w = (((0, None), w'), q')"
  shows "HandleConsume Q U tok st s r w = (SetError tok st w' ErrNoContent, s\<lparr>q := q'\<rparr>) \<and>
         header (fst (HandleConsume Q U tok st s r w)) ''X-Error'' = [tok ErrNoContent] \<and>
         status (fst (HandleConsume Q U tok st s r w)) =
           (if status w' = None then Some 204 else status w')"
  using assms
  by (simp add: HandleConsume_def consume_reply_def SetError_def SetHeader_def WriteHeader_def)

text \<open>The theorem at \<open>GET /topics/t1?id=5&limit=10\<close> over a queue with no message.\<close>

theorem HandleConsume_no_content_witness:
  "consume_args (map to_lower)
       (test_server (new_mock_queue (None, None) (\<lparr>MinOffset = 0, MaxOffset = 0\<rparr>, None) (0, None)))
       (consume_request ''5'' ''10'') = Inr (''t1'', 5, 10) \<and>
   HandleConsume mockQ (map to_lower) test_token test_status
       (test_server (new_mock_queue (None, None) (\<lparr>MinOffset = 0, MaxOffset = 0\<rparr>, None) (0, None)))
       (consume_request ''5'' ''10'') NewRecorder =
     (\<lparr>header = no_values(''X-Error'' := [''no-content'']), status = Some 204, body = []\<rparr>,
      \<lparr>q = \<lparr>calls = [CallConsume ''t1'' 5 10], topics_reply = (None, None),
             modify_reply = (\<lparr>MinOffset = 0, MaxOffset = 0\<rparr>, None), consume_answer = (0, None)\<rparr>,
       defaultConsumeLimit = - 1, consumed = []\<rparr>)"
proof -
  have p5: "ParseInt ''5'' = Some 5" and p10: "ParseInt ''10'' = Some 10"
    by (simp_all add: ParseInt_def ParseUint_def is_digit_def)
  have a: "consume_args (map to_lower)
       (test_server (new_mock_queue (None, None) (\<lparr>MinOffset = 0, MaxOffset = 0\<rparr>, None) (0, None)))
       (consume_request ''5'' ''10'') = Inr (''t1'', 5, 10)"
    using getTopic_consume_request [of "''5''" "''10''"] p5 p10
    by (simp add: consume_args_def Let_def consume_request_def Get_def no_values_def test_server_def)
  have c: "Consume mockQ
       (q (test_server (new_mock_queue (None, None) (\<lparr>MinOffset = 0, MaxOffset = 0\<rparr>, None) (0, None))))
       ''t1'' 5 10 NewRecorder =
     (((0, None), NewRecorder),
      \<lparr>calls = [CallConsume ''t1'' 5 10], topics_reply = (None, None),
       modify_reply = (\<lparr>MinOffset = 0, MaxOffset = 0\<rparr>, None), consume_answer = (0, None)\<rparr>)"
    by (simp add: mockQ_def test_server_def new_mock_queue_def)
  show ?thesis
    using a HandleConsume_no_content [OF a c, of test_token test_status]
    by (simp add: SetError_def SetHeader_def WriteHeader_def NewRecorder_def no_values_def
        test_server_def new_mock_queue_def)
qed

end
